theory Spec2Isabelle
  imports Main "HOL-Library.AList" "HOL-Library.Multiset" "HOL-Library.Sublist"
begin

section \<open>Text and character classes\<close>

text \<open>
  The matcher of \<^verbatim>\<open>test_impl_matcher.py\<close> works on two Python strings. A corpus is
  modelled as a \<^typ>\<open>string\<close> of ASCII characters. For ASCII, Python's \<^verbatim>\<open>\w\<close> is
  \<^verbatim>\<open>[A-Za-z0-9_]\<close>, and both \<^verbatim>\<open>\s\<close> and \<^verbatim>\<open>str.isspace\<close> hold of the code
  points 9 to 13, 28 to 31 and 32. The dot of a pattern compiled without
  \<^verbatim>\<open>re.DOTALL\<close> matches every character but the line feed.
\<close>

definition is_word :: "char \<Rightarrow> bool" where
  "is_word c =
     (let n = (of_char c :: nat)
      in (48 \<le> n \<and> n \<le> 57) \<or> (65 \<le> n \<and> n \<le> 90) \<or> n = 95 \<or> (97 \<le> n \<and> n \<le> 122))"

definition is_space :: "char \<Rightarrow> bool" where
  "is_space c =
     (let n = (of_char c :: nat)
      in (9 \<le> n \<and> n \<le> 13) \<or> (28 \<le> n \<and> n \<le> 32))"

definition is_arg_char :: "char \<Rightarrow> bool" where
  "is_arg_char c = (c \<noteq> CHR 0x0A \<and> c \<noteq> CHR '')'')"

text \<open>A literal piece of a pattern: the text must start with it.\<close>

fun literal :: "string \<Rightarrow> string \<Rightarrow> string option" where
  "literal [] s = Some s"
| "literal (p # ps) [] = None"
| "literal (p # ps) (c # cs) = (if p = c then literal ps cs else None)"

section \<open>The patterns, matched at the start of a text\<close>

text \<open>
  Each matcher takes the text from a candidate start position on and returns the
  captured groups with the text after the match, or \<open>None\<close> when the pattern does not
  match at that position. None of the patterns looks behind the start position.

  The greedy pieces \<^verbatim>\<open>\w+\<close>, \<^verbatim>\<open>\s+\<close> and \<^verbatim>\<open>\s*\<close> are each followed by a piece
  that cannot start with a character of the same class, so backtracking into a
  shorter run never succeeds and the run taken is the longest one.
\<close>

text \<open>\<^verbatim>\<open>(\w+)\.(\w+)\s*\(\<close> of \<^verbatim>\<open>extract_method_calls\<close>: groups (receiver, method).\<close>

definition match_call :: "string \<Rightarrow> ((string \<times> string) \<times> string) option" where
  "match_call s =
     (let obj = takeWhile is_word s
      in if obj = [] then None
         else case dropWhile is_word s of
                c # r \<Rightarrow>
                  if c \<noteq> CHR ''.'' then None
                  else let method = takeWhile is_word r
                       in if method = [] then None
                          else (case literal ''('' (dropWhile is_space (dropWhile is_word r)) of
                                  Some rest \<Rightarrow> Some ((obj, method), rest)
                                | None \<Rightarrow> None)
              | [] \<Rightarrow> None)"

text \<open>\<^verbatim>\<open>fun\s+(\w+)\s*\(\<close> of \<^verbatim>\<open>extract_method_defs\<close>: group (name).\<close>

definition match_def :: "string \<Rightarrow> (string \<times> string) option" where
  "match_def s =
     (case literal ''fun'' s of
        None \<Rightarrow> None
      | Some r \<Rightarrow>
          if takeWhile is_space r = [] then None
          else let r1 = dropWhile is_space r; name = takeWhile is_word r1
               in if name = [] then None
                  else (case literal ''('' (dropWhile is_space (dropWhile is_word r1)) of
                          Some rest \<Rightarrow> Some (name, rest)
                        | None \<Rightarrow> None))"

text \<open>
  \<^verbatim>\<open>(.*?)\)\<close>, the tail of both patterns of \<^verbatim>\<open>validate_signature_match\<close>: the lazy
  dot takes one character more (never a line feed) until a closing parenthesis
  follows, so the group is the text before the first closing parenthesis, and
  there is no match when a line feed or the end of the text comes first.
\<close>

definition lazy_args :: "string \<Rightarrow> (string \<times> string) option" where
  "lazy_args s =
     (case literal '')'' (dropWhile is_arg_char s) of
        Some rest \<Rightarrow> Some (takeWhile is_arg_char s, rest)
      | None \<Rightarrow> None)"

text \<open>\<^verbatim>\<open>fun\s+(\w+)\s*\((.*?)\)\<close>: groups (name, parameter text).\<close>

definition match_impl_sig :: "string \<Rightarrow> ((string \<times> string) \<times> string) option" where
  "match_impl_sig s =
     (case match_def s of
        None \<Rightarrow> None
      | Some (name, r) \<Rightarrow>
          (case lazy_args r of
             Some (params, rest) \<Rightarrow> Some ((name, params), rest)
           | None \<Rightarrow> None))"

text \<open>\<^verbatim>\<open>\.(\w+)\s*\((.*?)\)\<close>: groups (method, argument text).\<close>

definition match_test_call :: "string \<Rightarrow> ((string \<times> string) \<times> string) option" where
  "match_test_call s =
     (case literal ''.'' s of
        None \<Rightarrow> None
      | Some r \<Rightarrow>
          let method = takeWhile is_word r
          in if method = [] then None
             else (case literal ''('' (dropWhile is_space (dropWhile is_word r)) of
                     None \<Rightarrow> None
                   | Some r1 \<Rightarrow>
                       (case lazy_args r1 of
                          Some (args, rest) \<Rightarrow> Some ((method, args), rest)
                        | None \<Rightarrow> None)))"

text \<open>
  \<^verbatim>\<open>throws\s+(\w+(?:\s*,\s*\w+)*)\<close>: the group is a name followed by as many
  comma-separated names as follow; \<open>throws_more\<close> is the starred part and returns
  the text it takes with the text left.
\<close>

function throws_more :: "string \<Rightarrow> string \<times> string" where
  "throws_more s =
     (case literal '','' (dropWhile is_space s) of
        None \<Rightarrow> ([], s)
      | Some r \<Rightarrow>
          let r1 = dropWhile is_space r; name = takeWhile is_word r1
          in if name = [] then ([], s)
             else (case throws_more (dropWhile is_word r1) of
                     (more, rest) \<Rightarrow>
                       (takeWhile is_space s @ '','' @ takeWhile is_space r @ name @ more, rest)))"
  by pat_completeness auto

lemma literal_length: "literal p s = Some r \<Longrightarrow> length r + length p = length s"
  by (induction p s rule: literal.induct) (auto split: if_splits)

termination throws_more
proof (relation "measure length", goal_cases)
  case 1
  show ?case by simp
next
  case (2 s r r1 name)
  from 2(1) have "length r < length (dropWhile is_space s)"
    by (auto dest: literal_length)
  moreover have "length (dropWhile is_space s) \<le> length s"
    by (rule length_dropWhile_le)
  moreover have "length (dropWhile is_word r1) \<le> length r1"
    by (rule length_dropWhile_le)
  moreover have "length r1 \<le> length r"
    unfolding 2(2) by (rule length_dropWhile_le)
  ultimately show ?case by simp
qed

definition match_throws :: "string \<Rightarrow> (string \<times> string) option" where
  "match_throws s =
     (case literal ''throws'' s of
        None \<Rightarrow> None
      | Some r \<Rightarrow>
          if takeWhile is_space r = [] then None
          else let r1 = dropWhile is_space r; name = takeWhile is_word r1
               in if name = [] then None
                  else (case throws_more (dropWhile is_word r1) of
                          (more, rest) \<Rightarrow> Some (name @ more, rest)))"

text \<open>
  \<^verbatim>\<open>assertThatThrownBy.*?\.isInstanceOf\((\w+)\<close> with \<^verbatim>\<open>re.DOTALL\<close>: after the
  literal, the lazy dot (which here matches every character) moves on one
  character at a time until \<^verbatim>\<open>.isInstanceOf(\<close> and a name follow.
\<close>

definition match_is_instance_of :: "string \<Rightarrow> (string \<times> string) option" where
  "match_is_instance_of s =
     (case literal ''.isInstanceOf('' s of
        None \<Rightarrow> None
      | Some r \<Rightarrow>
          if takeWhile is_word r = [] then None
          else Some (takeWhile is_word r, dropWhile is_word r))"

fun lazy_is_instance_of :: "string \<Rightarrow> (string \<times> string) option" where
  "lazy_is_instance_of [] = None"
| "lazy_is_instance_of (c # cs) =
     (case match_is_instance_of (c # cs) of
        Some m \<Rightarrow> Some m
      | None \<Rightarrow> lazy_is_instance_of cs)"

definition match_exception_test :: "string \<Rightarrow> (string \<times> string) option" where
  "match_exception_test s =
     (case literal ''assertThatThrownBy'' s of
        None \<Rightarrow> None
      | Some r \<Rightarrow> lazy_is_instance_of r)"

section \<open>\<^verbatim>\<open>re.finditer\<close>\<close>

text \<open>
  \<^verbatim>\<open>re.finditer\<close> tries the pattern at each position from left to right; after a
  match it goes on from the end of that match, so matches never overlap. Every
  pattern here takes at least one character; the test on the lengths is what the
  regex engine does after an empty match (it moves on by one character) and is
  never taken by these patterns.
\<close>

function finditer :: "(string \<Rightarrow> ('g \<times> string) option) \<Rightarrow> string \<Rightarrow> 'g list" where
  "finditer pat s =
     (if s = [] then []
      else case pat s of
             None \<Rightarrow> finditer pat (tl s)
           | Some (g, rest) \<Rightarrow>
               g # finditer pat (if length rest < length s then rest else tl s))"
  by pat_completeness auto
termination
  by (relation "measure (\<lambda>(pat, s). length s)") auto

section \<open>Python sets, dictionaries and string conversion\<close>

text \<open>
  A Python \<^verbatim>\<open>set\<close> of strings is modelled by the list of its elements in the order
  they were added, without repetition. The order in which a set is iterated (and
  printed) is not the insertion order: it follows the hash values of the
  elements, and the hash of a string is chosen anew by every interpreter process
  (hash randomisation). The model takes the hash \<open>h\<close> of the process as a
  parameter; iteration goes by ascending hash, elements of equal hash in
  insertion order. Every order of the elements is the iteration order under some
  \<open>h\<close>.
\<close>

type_synonym pyset = "string list"
type_synonym pyhash = "string \<Rightarrow> int"

definition set_add :: "string \<Rightarrow> pyset \<Rightarrow> pyset" where
  "set_add x s = (if x \<in> set s then s else s @ [x])"

definition set_update :: "pyset \<Rightarrow> string list \<Rightarrow> pyset" where
  "set_update s xs = foldl (\<lambda>acc x. set_add x acc) s xs"

definition py_set :: "string list \<Rightarrow> pyset" where
  "py_set xs = set_update [] xs"

definition set_iter :: "pyhash \<Rightarrow> pyset \<Rightarrow> string list" where
  "set_iter h s = sort_key h s"

text \<open>Two hash functions, standing for two interpreter processes.\<close>

definition hash_by_length :: pyhash where
  "hash_by_length s = int (length s)"

definition hash_by_neg_length :: pyhash where
  "hash_by_neg_length s = - int (length s)"

text \<open>
  \<^verbatim>\<open>str.split(sep)\<close> for a one-character separator: the pieces between the
  separators, empty pieces included (the empty string gives one empty piece).
\<close>

fun split_on :: "char \<Rightarrow> string \<Rightarrow> string list" where
  "split_on sep [] = [[]]"
| "split_on sep (c # cs) =
     (if c = sep then [] # split_on sep cs
      else case split_on sep cs of
             p # ps \<Rightarrow> (c # p) # ps
           | [] \<Rightarrow> [[c]])"

definition py_strip :: "string \<Rightarrow> string" where
  "py_strip s = rev (dropWhile is_space (rev (dropWhile is_space s)))"

text \<open>\<^verbatim>\<open>str(n)\<close> for a natural number.\<close>

definition digit_char :: "nat \<Rightarrow> char" where
  "digit_char d = char_of (48 + d)"

function str_nat :: "nat \<Rightarrow> string" where
  "str_nat n = (if n < 10 then [digit_char n] else str_nat (n div 10) @ [digit_char (n mod 10)])"
  by pat_completeness auto
termination
  by (relation "measure id") auto

text \<open>
  \<^verbatim>\<open>repr\<close> of an ASCII string: in single quotes, unless the string has a single
  quote and no double quote; the quote and the backslash escaped, tab, line feed
  and carriage return by their letters, every other control character as
  \<^verbatim>\<open>\xhh\<close>.
\<close>

definition hex_digit :: "nat \<Rightarrow> char" where
  "hex_digit d = (if d < 10 then char_of (48 + d) else char_of (87 + d))"

definition repr_char :: "char \<Rightarrow> char \<Rightarrow> string" where
  "repr_char q c =
     (if c = q \<or> c = CHR 0x5C then [CHR 0x5C, c]
      else if c = CHR 0x09 then [CHR 0x5C, CHR ''t'']
      else if c = CHR 0x0A then [CHR 0x5C, CHR ''n'']
      else if c = CHR 0x0D then [CHR 0x5C, CHR ''r'']
      else if (of_char c :: nat) < 32 \<or> (of_char c :: nat) = 127
        then [CHR 0x5C, CHR ''x'', hex_digit (of_char c div 16), hex_digit (of_char c mod 16)]
      else [c])"

definition py_repr :: "string \<Rightarrow> string" where
  "py_repr s =
     (let q = (if CHR 0x27 \<in> set s \<and> CHR 0x22 \<notin> set s then CHR 0x22 else CHR 0x27)
      in [q] @ concat (map (repr_char q) s) @ [q])"

fun join :: "string \<Rightarrow> string list \<Rightarrow> string" where
  "join sep [] = []"
| "join sep [x] = x"
| "join sep (x # y # ys) = x @ sep @ join sep (y # ys)"

text \<open>\<^verbatim>\<open>str\<close> of a set, as an f-string prints it: the elements in iteration order.\<close>

definition py_set_str :: "pyhash \<Rightarrow> pyset \<Rightarrow> string" where
  "py_set_str h s =
     (if s = [] then ''set()''
      else ''{'' @ join '', '' (map py_repr (set_iter h s)) @ ''}'')"

section \<open>The class \<^verbatim>\<open>TestImplMatcher\<close>\<close>

text \<open>
  An instance holds the two texts and the two lists that the checks append to.
  A method is a function from the instance to its return value and the instance
  after the call. A \<^verbatim>\<open>dict\<close> is an association list in insertion order:
  assigning to a key that is present replaces its value in place, assigning
  to a new key appends it (\<^const>\<open>AList.update\<close>).
\<close>

record matcher =
  test_code :: string
  impl_code :: string
  errors :: "string list"
  warnings :: "string list"

definition new_matcher :: "string \<Rightarrow> string \<Rightarrow> matcher" where
  "new_matcher t i = \<lparr>test_code = t, impl_code = i, errors = [], warnings = []\<rparr>"

subsection \<open>Extraction\<close>

text \<open>
  One step of the loop of \<^verbatim>\<open>extract_method_calls\<close>: the receiver gets an empty
  set when it is new, and the method is added to the receiver's set.
\<close>

definition add_call :: "(string \<times> pyset) list \<Rightarrow> string \<times> string \<Rightarrow> (string \<times> pyset) list" where
  "add_call calls_by_class m =
     (case m of (obj, method) \<Rightarrow>
        (case map_of calls_by_class obj of
           None \<Rightarrow> AList.update obj (set_add method []) calls_by_class
         | Some methods \<Rightarrow> AList.update obj (set_add method methods) calls_by_class))"

definition extract_method_calls :: "string \<Rightarrow> (string \<times> pyset) list" where
  "extract_method_calls t = foldl add_call [] (finditer match_call t)"

definition extract_method_defs :: "string \<Rightarrow> pyset" where
  "extract_method_defs i = py_set (finditer match_def i)"

subsection \<open>\<^verbatim>\<open>validate_method_match\<close>\<close>

definition helper_methods :: "string list" where
  "helper_methods = [''assertEquals'', ''assertTrue'', ''assertFalse'', ''reset'', ''given'', ''verify'']"

definition undefined_message :: "string \<Rightarrow> string" where
  "undefined_message method =
     ''Method '' @ [CHR 0x27] @ method @ [CHR 0x27] @ '' is called in tests but not found in implementation''"

text \<open>The messages that the two nested loops append, in the order of the appends.\<close>

definition method_match_errors :: "pyhash \<Rightarrow> (string \<times> pyset) list \<Rightarrow> pyset \<Rightarrow> string list" where
  "method_match_errors h calls defs =
     [undefined_message method.
        (obj, methods) \<leftarrow> calls,
        method \<leftarrow> set_iter h methods,
        method \<notin> set helper_methods,
        method \<notin> set defs]"

definition validate_method_match :: "pyhash \<Rightarrow> matcher \<Rightarrow> bool \<times> matcher" where
  "validate_method_match h self =
     (let calls = extract_method_calls (test_code self);
          defs = extract_method_defs (impl_code self);
          self1 = self\<lparr>errors := errors self @ method_match_errors h calls defs\<rparr>
      in (length (errors self1) = 0, self1))"

subsection \<open>\<^verbatim>\<open>validate_test_coverage\<close>\<close>

definition structural_methods :: "string list" where
  "structural_methods = [''equals'', ''hashCode'', ''toString'', ''getClass'']"

definition starts_with_underscore :: "string \<Rightarrow> bool" where
  "starts_with_underscore m = (case m of c # cs \<Rightarrow> c = CHR ''_'' | [] \<Rightarrow> False)"

definition all_called_methods :: "pyhash \<Rightarrow> (string \<times> pyset) list \<Rightarrow> pyset" where
  "all_called_methods h calls =
     foldl (\<lambda>acc methods. set_update acc (set_iter h methods)) [] (map snd calls)"

text \<open>
  The set \<^verbatim>\<open>uncovered\<close> when the \<^verbatim>\<open>if\<close> tests it: the set comprehensions and
  the set difference each build a new set from the iteration of the old one.
\<close>

definition uncovered_methods :: "pyhash \<Rightarrow> string \<Rightarrow> string \<Rightarrow> pyset" where
  "uncovered_methods h t i =
     (let defs = extract_method_defs i;
          calls = extract_method_calls t;
          called = all_called_methods h calls;
          public_methods = py_set [m. m \<leftarrow> set_iter h defs, \<not> starts_with_underscore m];
          uncovered = py_set [m. m \<leftarrow> set_iter h public_methods, m \<notin> set called]
      in py_set [m. m \<leftarrow> set_iter h uncovered, m \<notin> set structural_methods])"

definition validate_test_coverage :: "pyhash \<Rightarrow> matcher \<Rightarrow> bool \<times> matcher" where
  "validate_test_coverage h self =
     (let uncovered = uncovered_methods h (test_code self) (impl_code self)
      in if uncovered \<noteq> []
         then (True, self\<lparr>warnings := warnings self @
                 [''Public methods without tests: '' @ py_set_str h uncovered]\<rparr>)
         else (True, self))"

subsection \<open>\<^verbatim>\<open>validate_exception_handling\<close>\<close>

definition thrown_exceptions :: "string \<Rightarrow> pyset" where
  "thrown_exceptions i =
     foldl (\<lambda>acc exc. set_update acc (split_on CHR '','' (filter (\<lambda>c. c \<noteq> CHR '' '') exc)))
       [] (finditer match_throws i)"

definition tested_exceptions :: "string \<Rightarrow> pyset" where
  "tested_exceptions t = py_set (finditer match_exception_test t)"

definition untested_exceptions :: "pyhash \<Rightarrow> string \<Rightarrow> string \<Rightarrow> pyset" where
  "untested_exceptions h t i =
     py_set [e. e \<leftarrow> set_iter h (thrown_exceptions i), e \<notin> set (tested_exceptions t)]"

definition validate_exception_handling :: "pyhash \<Rightarrow> matcher \<Rightarrow> bool \<times> matcher" where
  "validate_exception_handling h self =
     (let untested = untested_exceptions h (test_code self) (impl_code self)
      in if untested \<noteq> []
         then (True, self\<lparr>warnings := warnings self @
                 [''Exceptions declared but not tested: '' @ py_set_str h untested]\<rparr>)
         else (True, self))"

subsection \<open>\<^verbatim>\<open>validate_signature_match\<close>\<close>

text \<open>
  Both dictionaries are filled by assignment in the order of the matches, so a
  name that is matched again keeps its place and takes the later text.
\<close>

definition store :: "(string \<times> string) list \<Rightarrow> string \<times> string \<Rightarrow> (string \<times> string) list" where
  "store d m = AList.update (fst m) (snd m) d"

definition impl_sigs :: "string \<Rightarrow> (string \<times> string) list" where
  "impl_sigs i = foldl store [] (finditer match_impl_sig i)"

definition test_calls :: "string \<Rightarrow> (string \<times> string) list" where
  "test_calls t = foldl store [] (finditer match_test_call t)"

text \<open>\<^verbatim>\<open>len([p for p in params.split(',') if p.strip()])\<close>\<close>

definition param_count :: "string \<Rightarrow> nat" where
  "param_count params = length [p. p \<leftarrow> split_on CHR '','' params, py_strip p \<noteq> []]"

definition arity_message :: "string \<Rightarrow> nat \<Rightarrow> nat \<Rightarrow> string" where
  "arity_message method test_param_count impl_param_count =
     ''Method '' @ [CHR 0x27] @ method @ [CHR 0x27] @ '' called with '' @ str_nat test_param_count
       @ '' params in test, but defined with '' @ str_nat impl_param_count @ '' in implementation''"

text \<open>What one round of the loop over \<^verbatim>\<open>test_calls.items()\<close> appends.\<close>

definition check_signature :: "(string \<times> string) list \<Rightarrow> string \<times> string \<Rightarrow> string list" where
  "check_signature sigs call =
     (case call of (method, test_params) \<Rightarrow>
        (case map_of sigs method of
           None \<Rightarrow> []
         | Some impl_params \<Rightarrow>
             if param_count test_params \<noteq> param_count impl_params
             then [arity_message method (param_count test_params) (param_count impl_params)]
             else []))"

definition signature_errors :: "string \<Rightarrow> string \<Rightarrow> string list" where
  "signature_errors t i = concat (map (check_signature (impl_sigs i)) (test_calls t))"

definition validate_signature_match :: "matcher \<Rightarrow> bool \<times> matcher" where
  "validate_signature_match self =
     (let self1 = self\<lparr>errors := errors self
                     @ signature_errors (test_code self) (impl_code self)\<rparr>
      in (length (errors self1) = 0, self1))"

subsection \<open>\<^verbatim>\<open>run_all_checks\<close>\<close>

text \<open>
  The values of the result dictionary. The list under \<^verbatim>\<open>errors\<close> is the
  instance's own list object; the model stores its content at the time of the
  return.
\<close>

datatype pyval = PyBool bool | PyStr string | PyList "string list" | PyInt nat

type_synonym pydict = "(string \<times> pyval) list"

definition run_all_checks :: "pyhash \<Rightarrow> matcher \<Rightarrow> (bool \<times> pydict) \<times> matcher" where
  "run_all_checks h self =
     (let self1 = snd (validate_method_match h self);
          self2 = snd (validate_test_coverage h self1);
          self3 = snd (validate_exception_handling h self2);
          self4 = snd (validate_signature_match self3);
          success = (length (errors self4) = 0)
      in ((success,
           [(''success'', PyBool success),
            (''errors'', PyList (errors self4)),
            (''warnings'', PyList (warnings self4)),
            (''error_count'', PyInt (length (errors self4))),
            (''warning_count'', PyInt (length (warnings self4)))]),
          self4))"

section \<open>The driver\<close>

text \<open>
  The file system is a map from paths to file contents; reading a path that is
  not in the map raises \<^verbatim>\<open>FileNotFoundError\<close>, whose text names the path.
  Other failures of \<^verbatim>\<open>read_text\<close> are not modelled.
\<close>

type_synonym filesystem = "string \<rightharpoonup> string"

definition file_not_found_str :: "string \<Rightarrow> string" where
  "file_not_found_str path = ''[Errno 2] No such file or directory: '' @ py_repr path"

definition validate_files :: "filesystem \<Rightarrow> pyhash \<Rightarrow> string \<Rightarrow> string \<Rightarrow> pydict" where
  "validate_files fs h test_file impl_file =
     (case fs test_file of
        None \<Rightarrow> [(''success'', PyBool False),
                 (''error'', PyStr (''File not found: '' @ file_not_found_str test_file))]
      | Some test_text \<Rightarrow>
          (case fs impl_file of
             None \<Rightarrow> [(''success'', PyBool False),
                      (''error'', PyStr (''File not found: '' @ file_not_found_str impl_file))]
           | Some impl_text \<Rightarrow> snd (fst (run_all_checks h (new_matcher test_text impl_text)))))"

subsection \<open>\<^verbatim>\<open>print_report\<close>\<close>

text \<open>
  Subscripting a dictionary by a key it does not have raises \<^verbatim>\<open>KeyError\<close>;
  \<^verbatim>\<open>dict.get\<close> returns \<^verbatim>\<open>None\<close> instead, which is false in a condition.
  \<^verbatim>\<open>print_report\<close> returns what it has printed (one string per call of
  \<^verbatim>\<open>print\<close>, the pictographs as their UTF-8 bytes) and the exception that ended
  it, if one did.
\<close>

datatype py_exception = KeyError string | TypeError

fun truthy :: "pyval \<Rightarrow> bool" where
  "truthy (PyBool b) = b"
| "truthy (PyStr s) = (s \<noteq> [])"
| "truthy (PyList xs) = (xs \<noteq> [])"
| "truthy (PyInt n) = (n \<noteq> 0)"

fun py_str :: "pyval \<Rightarrow> string" where
  "py_str (PyBool b) = (if b then ''True'' else ''False'')"
| "py_str (PyStr s) = s"
| "py_str (PyList xs) = ''['' @ join '', '' (map py_repr xs) @ '']''"
| "py_str (PyInt n) = str_nat n"

text \<open>The elements a \<^verbatim>\<open>for\<close> loop takes from a value that also has a \<^verbatim>\<open>len\<close>.\<close>

fun py_items :: "pyval \<Rightarrow> py_exception + string list" where
  "py_items (PyList xs) = Inr xs"
| "py_items (PyStr s) = Inr (map (\<lambda>c. [c]) s)"
| "py_items (PyBool b) = Inl TypeError"
| "py_items (PyInt n) = Inl TypeError"

definition rule_line :: string where
  "rule_line = replicate 60 CHR ''=''"

definition passed_line :: string where
  "passed_line = [CHR 0xE2, CHR 0x9C, CHR 0x85] @ '' PASSED: All tests match implementation''"

definition failed_line :: string where
  "failed_line = [CHR 0xE2, CHR 0x9D, CHR 0x8C] @ '' FAILED: Found mismatches''"

definition errors_title :: string where
  "errors_title = [CHR 0x0A, CHR 0xF0, CHR 0x9F, CHR 0x94, CHR 0xB4] @ '' ERRORS''"

definition warnings_title :: string where
  "warnings_title =
     [CHR 0x0A, CHR 0xE2, CHR 0x9A, CHR 0xA0, CHR 0xEF, CHR 0xB8, CHR 0x8F] @ ''  WARNINGS''"

text \<open>The block printed for \<^verbatim>\<open>errors\<close> and for \<^verbatim>\<open>warnings\<close>.\<close>

definition print_block :: "string \<Rightarrow> string \<Rightarrow> pydict \<Rightarrow> string list \<times> py_exception option" where
  "print_block title key result =
     (case map_of result key of
        None \<Rightarrow> ([], None)
      | Some v \<Rightarrow>
          if \<not> truthy v then ([], None)
          else case py_items v of
                 Inl e \<Rightarrow> ([], Some e)
               | Inr xs \<Rightarrow>
                   ((title @ '' ('' @ str_nat (length xs) @ ''):'') # map (\<lambda>x. ''  - '' @ x) xs,
                    None))"

definition print_total :: "pydict \<Rightarrow> string list \<times> py_exception option" where
  "print_total result =
     (case map_of result ''error_count'' of
        None \<Rightarrow> ([CHR 0x0A # rule_line], Some (KeyError ''error_count''))
      | Some ec \<Rightarrow>
          (case map_of result ''warning_count'' of
             None \<Rightarrow> ([CHR 0x0A # rule_line], Some (KeyError ''warning_count''))
           | Some wc \<Rightarrow>
               ([CHR 0x0A # rule_line,
                 ''Total: '' @ py_str ec @ '' errors, '' @ py_str wc @ '' warnings'',
                 rule_line @ [CHR 0x0A]], None)))"

definition print_report :: "pydict \<Rightarrow> string list \<times> py_exception option" where
  "print_report result =
     (let head = [CHR 0x0A # rule_line, ''TEST-IMPLEMENTATION MATCHER REPORT'', rule_line]
      in case map_of result ''success'' of
           None \<Rightarrow> (head, Some (KeyError ''success''))
         | Some ok \<Rightarrow>
             let out1 = head @ [if truthy ok then passed_line else failed_line]
             in (case print_block errors_title ''errors'' result of
                   (es, Some e) \<Rightarrow> (out1 @ es, Some e)
                 | (es, None) \<Rightarrow>
                     (case print_block warnings_title ''warnings'' result of
                        (ws, Some e) \<Rightarrow> (out1 @ es @ ws, Some e)
                      | (ws, None) \<Rightarrow>
                          (case print_total result of
                             (tot, e) \<Rightarrow> (out1 @ es @ ws @ tot, e)))))"

subsection \<open>The script\<close>

text \<open>
  How the process ends: by \<^verbatim>\<open>sys.exit\<close> with a status, or by an exception that
  nothing catches, for which the interpreter prints a traceback and exits with
  status 1. The arguments are taken as paths as they stand.
\<close>

datatype ending = Exit nat | Uncaught py_exception

fun exit_code :: "ending \<Rightarrow> nat" where
  "exit_code (Exit n) = n"
| "exit_code (Uncaught e) = 1"

definition main :: "filesystem \<Rightarrow> pyhash \<Rightarrow> string list \<Rightarrow> string list \<times> ending" where
  "main fs h argv =
     (if length argv < 3
      then ([''Usage: python test_impl_matcher.py <test_file> <impl_file>''], Exit 1)
      else let result = validate_files fs h (argv ! 1) (argv ! 2)
           in case print_report result of
                (out, Some e) \<Rightarrow> (out, Uncaught e)
              | (out, None) \<Rightarrow>
                  (case map_of result ''success'' of
                     None \<Rightarrow> (out, Uncaught (KeyError ''success''))
                   | Some ok \<Rightarrow> (out, Exit (if truthy ok then 0 else 1))))"

section \<open>Notions used in the statements\<close>

text \<open>
  The findings of the four checks for a pair of texts, in the order in which
  \<^verbatim>\<open>run_all_checks\<close> appends them. None of the checks reads the two lists.
\<close>

definition new_errors :: "pyhash \<Rightarrow> string \<Rightarrow> string \<Rightarrow> string list" where
  "new_errors h t i =
     method_match_errors h (extract_method_calls t) (extract_method_defs i) @ signature_errors t i"

definition coverage_warnings :: "pyhash \<Rightarrow> string \<Rightarrow> string \<Rightarrow> string list" where
  "coverage_warnings h t i =
     (if uncovered_methods h t i \<noteq> []
      then [''Public methods without tests: '' @ py_set_str h (uncovered_methods h t i)]
      else [])"

definition exception_warnings :: "pyhash \<Rightarrow> string \<Rightarrow> string \<Rightarrow> string list" where
  "exception_warnings h t i =
     (if untested_exceptions h t i \<noteq> []
      then [''Exceptions declared but not tested: '' @ py_set_str h (untested_exceptions h t i)]
      else [])"

definition new_warnings :: "pyhash \<Rightarrow> string \<Rightarrow> string \<Rightarrow> string list" where
  "new_warnings h t i = coverage_warnings h t i @ exception_warnings h t i"

text \<open>
  The (receiver, method) pairs that a dictionary of calls holds, receiver by
  receiver, and the same pairs in the order in which the two nested loops of
  \<^verbatim>\<open>validate_method_match\<close> visit them.
\<close>

definition call_pairs :: "(string \<times> pyset) list \<Rightarrow> (string \<times> string) list" where
  "call_pairs calls = concat (map (\<lambda>(obj, methods). map (Pair obj) methods) calls)"

definition visited_pairs :: "pyhash \<Rightarrow> (string \<times> pyset) list \<Rightarrow> (string \<times> string) list" where
  "visited_pairs h calls = concat (map (\<lambda>(obj, methods). map (Pair obj) (set_iter h methods)) calls)"

definition wf_calls :: "(string \<times> pyset) list \<Rightarrow> bool" where
  "wf_calls calls = (distinct (map fst calls) \<and> list_all (\<lambda>(obj, methods). distinct methods) calls)"

text \<open>The messages of the undefined-method rule, pair by pair.\<close>

definition is_undefined :: "pyset \<Rightarrow> string \<times> string \<Rightarrow> bool" where
  "is_undefined defs p = (snd p \<notin> set helper_methods \<and> snd p \<notin> set defs)"

text \<open>An error message starts by naming its method.\<close>

definition names_method :: "string \<Rightarrow> string \<Rightarrow> bool" where
  "names_method method message = prefix (''Method '' @ [CHR 0x27] @ method @ [CHR 0x27]) message"

text \<open>
  The capture that the specification describes, to compare with \<^const>\<open>lazy_args\<close>:
  a scan that counts the depth of the open parentheses and stops at the closing
  parenthesis of depth 0, and the call-site pattern with that capture.
\<close>

fun spec_balanced_args :: "nat \<Rightarrow> string \<Rightarrow> (string \<times> string) option" where
  "spec_balanced_args depth [] = None"
| "spec_balanced_args depth (c # cs) =
     (if c = CHR '')'' \<and> depth = 0 then Some ([], cs)
      else case spec_balanced_args
                  (if c = CHR ''('' then Suc depth else if c = CHR '')'' then depth - 1 else depth)
                  cs of
             None \<Rightarrow> None
           | Some (a, rest) \<Rightarrow> Some (c # a, rest))"

definition spec_match_test_call :: "string \<Rightarrow> ((string \<times> string) \<times> string) option" where
  "spec_match_test_call s =
     (case literal ''.'' s of
        None \<Rightarrow> None
      | Some r \<Rightarrow>
          let method = takeWhile is_word r
          in if method = [] then None
             else (case literal ''('' (dropWhile is_space (dropWhile is_word r)) of
                     None \<Rightarrow> None
                   | Some r1 \<Rightarrow>
                       (case spec_balanced_args 0 r1 of
                          Some (args, rest) \<Rightarrow> Some ((method, args), rest)
                        | None \<Rightarrow> None)))"

section \<open>Facts about the model\<close>

lemma validate_method_match_appends:
  "snd (validate_method_match h m) =
     m\<lparr>errors := errors m @ method_match_errors h (extract_method_calls (test_code m))
                              (extract_method_defs (impl_code m))\<rparr>"
  by (simp add: validate_method_match_def Let_def)

lemma validate_test_coverage_appends:
  "snd (validate_test_coverage h m) =
     m\<lparr>warnings := warnings m @ coverage_warnings h (test_code m) (impl_code m)\<rparr>"
  by (simp add: validate_test_coverage_def coverage_warnings_def Let_def)

lemma validate_exception_handling_appends:
  "snd (validate_exception_handling h m) =
     m\<lparr>warnings := warnings m @ exception_warnings h (test_code m) (impl_code m)\<rparr>"
  by (simp add: validate_exception_handling_def exception_warnings_def Let_def)

lemma validate_signature_match_appends:
  "snd (validate_signature_match m) =
     m\<lparr>errors := errors m @ signature_errors (test_code m) (impl_code m)\<rparr>"
  by (simp add: validate_signature_match_def Let_def)

lemma run_all_checks_state:
  "snd (run_all_checks h m) =
     m\<lparr>errors := errors m @ new_errors h (test_code m) (impl_code m),
       warnings := warnings m @ new_warnings h (test_code m) (impl_code m)\<rparr>"
  by (simp add: run_all_checks_def Let_def validate_method_match_appends
      validate_test_coverage_appends validate_exception_handling_appends
      validate_signature_match_appends new_errors_def new_warnings_def)

lemma run_all_checks_report:
  "fst (run_all_checks h m) =
     (errors (snd (run_all_checks h m)) = [],
      [(''success'', PyBool (errors (snd (run_all_checks h m)) = [])),
       (''errors'', PyList (errors (snd (run_all_checks h m)))),
       (''warnings'', PyList (warnings (snd (run_all_checks h m)))),
       (''error_count'', PyInt (length (errors (snd (run_all_checks h m))))),
       (''warning_count'', PyInt (length (warnings (snd (run_all_checks h m)))))])"
  by (simp add: run_all_checks_def Let_def)

lemma print_report_of_run:
  "snd (print_report
     [(''success'', PyBool b), (''errors'', PyList es), (''warnings'', PyList ws),
      (''error_count'', PyInt n), (''warning_count'', PyInt k)]) = None"
  by (simp add: print_report_def print_block_def print_total_def Let_def split: prod.splits)

lemma print_report_of_failure:
  "snd (print_report [(''success'', PyBool False), (''error'', PyStr msg)])
     = Some (KeyError ''error_count'')"
  by (simp add: print_report_def print_block_def print_total_def Let_def)

lemma validate_files_missing:
  "fs test_file = None \<or> fs impl_file = None \<Longrightarrow>
     \<exists>msg. validate_files fs h test_file impl_file
             = [(''success'', PyBool False), (''error'', PyStr msg)]"
  by (auto simp: validate_files_def split: option.splits)

lemma main_missing_file:
  assumes "fs test_file = None \<or> fs impl_file = None"
  shows "snd (main fs h (script # test_file # impl_file # rest))
           = Uncaught (KeyError ''error_count'')"
proof -
  from validate_files_missing [OF assms] obtain msg where
    "validate_files fs h test_file impl_file
       = [(''success'', PyBool False), (''error'', PyStr msg)]" ..
  then show ?thesis
    using print_report_of_failure [of msg]
    by (auto simp: main_def Let_def split: prod.splits option.splits)
qed

lemma set_set_add: "set (set_add x s) = insert x (set s)"
  by (auto simp: set_add_def)

lemma distinct_set_add: "distinct s \<Longrightarrow> distinct (set_add x s)"
  by (simp add: set_add_def)

lemma set_set_update: "set (set_update s xs) = set s \<union> set xs"
  unfolding set_update_def
  by (induction xs arbitrary: s) (auto simp: set_set_add)

lemma distinct_set_update: "distinct s \<Longrightarrow> distinct (set_update s xs)"
  unfolding set_update_def
  by (induction xs arbitrary: s) (auto simp: distinct_set_add)

lemma set_py_set: "set (py_set xs) = set xs"
  by (simp add: py_set_def set_set_update)

lemma distinct_py_set: "distinct (py_set xs)"
  by (simp add: py_set_def distinct_set_update)

lemma set_set_iter: "set (set_iter h s) = set s"
  by (simp add: set_iter_def)

lemma distinct_set_iter: "distinct (set_iter h s) = distinct s"
  by (simp add: set_iter_def)

lemma mset_set_iter: "mset (set_iter h s) = mset s"
  by (simp add: set_iter_def)

lemma set_iter_empty: "set_iter h s = [] \<longleftrightarrow> s = []"
  using set_set_iter [of h s] by (metis set_empty)

lemma distinct_singleton_list: "distinct xs \<Longrightarrow> set xs = {x} \<Longrightarrow> xs = [x]"
proof (cases xs)
  case Nil
  assume "set xs = {x}"
  with Nil show ?thesis by simp
next
  case (Cons y ys)
  assume d: "distinct xs" and s: "set xs = {x}"
  from s Cons have y: "y = x" by auto
  have "ys = []"
  proof (cases ys)
    case Nil
    then show ?thesis .
  next
    case (Cons z zs)
    with s \<open>xs = y # ys\<close> have "z = x" by auto
    with d y Cons \<open>xs = y # ys\<close> show ?thesis by simp
  qed
  with y Cons show ?thesis by simp
qed

lemma set_thrown_exceptions:
  "set (thrown_exceptions i) =
     (\<Union>exc \<in> set (finditer match_throws i).
        set (split_on CHR '','' (filter (\<lambda>c. c \<noteq> CHR '' '') exc)))"
proof -
  have "set (foldl (\<lambda>acc exc. set_update acc (f exc)) s xs) = set s \<union> (\<Union>exc \<in> set xs. set (f exc))"
    for f :: "string \<Rightarrow> string list" and s xs
    by (induction xs arbitrary: s) (auto simp: set_set_update)
  then show ?thesis by (simp add: thrown_exceptions_def)
qed

lemma set_untested_exceptions:
  "set (untested_exceptions h t i) = set (thrown_exceptions i) - set (tested_exceptions t)"
  by (auto simp: untested_exceptions_def set_py_set set_set_iter)

lemma add_call_Nil: "add_call [] (r, m) = [(r, [m])]"
  by (simp add: add_call_def set_add_def)

lemma add_call_Cons:
  "add_call ((k, v) # rest) (r, m) =
     (if k = r then (r, set_add m v) # rest else (k, v) # add_call rest (r, m))"
  by (simp add: add_call_def split: option.splits)

lemma set_call_pairs_add_call:
  "set (call_pairs (add_call calls (r, m))) = insert (r, m) (set (call_pairs calls))"
proof (induction calls)
  case Nil
  show ?case by (simp add: add_call_Nil call_pairs_def)
next
  case (Cons kv calls)
  obtain k v where kv: "kv = (k, v)" by (cases kv)
  show ?case
  proof (cases "k = r")
    case True
    then show ?thesis
      by (auto simp: kv add_call_Cons call_pairs_def set_set_add)
  next
    case False
    with Cons.IH show ?thesis
      by (auto simp: kv add_call_Cons call_pairs_def)
  qed
qed

lemma keys_add_call: "fst ` set (add_call calls (r, m)) = insert r (fst ` set calls)"
  by (auto simp: add_call_def dom_update split: option.splits)

lemma wf_calls_add_call: "wf_calls calls \<Longrightarrow> wf_calls (add_call calls (r, m))"
proof (induction calls)
  case Nil
  show ?case by (simp add: add_call_Nil wf_calls_def)
next
  case (Cons kv calls)
  obtain k v where kv: "kv = (k, v)" by (cases kv)
  from Cons.prems have rest: "wf_calls calls" and k: "k \<notin> fst ` set calls" and v: "distinct v"
    by (auto simp: wf_calls_def kv)
  show ?case
  proof (cases "k = r")
    case True
    with Cons.prems show ?thesis
      by (auto simp: kv add_call_Cons wf_calls_def distinct_set_add)
  next
    case False
    have "k \<notin> fst ` set (add_call calls (r, m))"
      using k False by (simp add: keys_add_call)
    with Cons.IH [OF rest] v False show ?thesis
      by (auto simp: kv add_call_Cons wf_calls_def)
  qed
qed

lemma distinct_call_pairs: "wf_calls calls \<Longrightarrow> distinct (call_pairs calls)"
proof (induction calls)
  case Nil
  show ?case by (simp add: call_pairs_def)
next
  case (Cons kv calls)
  obtain k v where kv: "kv = (k, v)" by (cases kv)
  from Cons.prems have rest: "wf_calls calls" and k: "k \<notin> fst ` set calls" and v: "distinct v"
    by (auto simp: wf_calls_def kv)
  have "fst ` set (call_pairs calls) \<subseteq> fst ` set calls"
    by (auto simp: call_pairs_def) force
  with k have "Pair k ` set v \<inter> set (call_pairs calls) = {}"
    by force
  moreover have "distinct (map (Pair k) v)"
    using v by (simp add: distinct_map inj_on_def)
  moreover have "call_pairs (kv # calls) = map (Pair k) v @ call_pairs calls"
    by (simp add: kv call_pairs_def)
  ultimately show ?case
    using Cons.IH [OF rest] by simp
qed

lemma mset_visited_pairs: "mset (visited_pairs h calls) = mset (call_pairs calls)"
  by (induction calls) (auto simp: visited_pairs_def call_pairs_def mset_set_iter)

lemma foldl_add_call:
  "set (call_pairs (foldl add_call acc ms)) = set (call_pairs acc) \<union> set ms
   \<and> (wf_calls acc \<longrightarrow> wf_calls (foldl add_call acc ms))"
proof (induction ms arbitrary: acc)
  case Nil
  show ?case by simp
next
  case (Cons p ms)
  obtain r m where p: "p = (r, m)" by (cases p)
  show ?case
    using Cons.IH [of "add_call acc (r, m)"]
    by (auto simp: p set_call_pairs_add_call wf_calls_add_call)
qed

lemma extract_method_calls_pairs:
  "set (call_pairs (extract_method_calls t)) = set (finditer match_call t)"
  "distinct (call_pairs (extract_method_calls t))"
proof -
  have "wf_calls []" by (simp add: wf_calls_def)
  then have "wf_calls (extract_method_calls t)"
    using foldl_add_call [of "[]" "finditer match_call t"]
    by (simp add: extract_method_calls_def)
  then show "distinct (call_pairs (extract_method_calls t))"
    by (rule distinct_call_pairs)
  show "set (call_pairs (extract_method_calls t)) = set (finditer match_call t)"
    using foldl_add_call [of "[]" "finditer match_call t"]
    by (simp add: extract_method_calls_def call_pairs_def)
qed

lemma method_match_errors_visited:
  "method_match_errors h calls defs
     = map (undefined_message \<circ> snd) (filter (is_undefined defs) (visited_pairs h calls))"
proof (induction calls)
  case Nil
  show ?case by (simp add: method_match_errors_def visited_pairs_def)
next
  case (Cons kv calls)
  obtain k v where kv: "kv = (k, v)" by (cases kv)
  have inner: "concat (map (\<lambda>method. if method \<notin> set helper_methods
                        then if method \<notin> set defs then [undefined_message method] else []
                        else []) xs)
      = map (undefined_message \<circ> snd) (filter (is_undefined defs) (map (Pair k) xs))" for xs
    by (induction xs) (auto simp: is_undefined_def)
  from Cons.IH show ?case
    by (simp add: kv method_match_errors_def visited_pairs_def inner)
qed

lemma length_method_match_errors:
  assumes "distinct (call_pairs calls)"
  shows "length (method_match_errors h calls defs)
           = card {p \<in> set (call_pairs calls). is_undefined defs p}"
proof -
  have "length (method_match_errors h calls defs)
          = size (filter_mset (is_undefined defs) (mset (visited_pairs h calls)))"
    by (simp add: method_match_errors_visited flip: mset_filter)
  also have "\<dots> = length (filter (is_undefined defs) (call_pairs calls))"
    by (simp add: mset_visited_pairs flip: mset_filter)
  also have "\<dots> = card {p \<in> set (call_pairs calls). is_undefined defs p}"
    using assms distinct_card [of "filter (is_undefined defs) (call_pairs calls)"]
    by simp
  finally show ?thesis .
qed

lemma card_insert_filter:
  assumes "finite S"
  shows "card {p \<in> insert x S. P p} = card {p \<in> S. P p} + (if x \<in> S \<or> \<not> P x then 0 else 1)"
proof (cases "x \<in> S \<or> \<not> P x")
  case True
  then have "{p \<in> insert x S. P p} = {p \<in> S. P p}" by auto
  with True show ?thesis by simp
next
  case False
  then have "{p \<in> insert x S. P p} = insert x {p \<in> S. P p}" and "x \<notin> {p \<in> S. P p}"
    by auto
  with False assms show ?thesis by simp
qed

lemma set_all_called_methods:
  "set (all_called_methods h calls) = snd ` set (call_pairs calls)"
proof -
  have "set (foldl (\<lambda>acc methods. set_update acc (set_iter h methods)) acc (map snd calls))
          = set acc \<union> snd ` set (call_pairs calls)" for acc
  proof (induction calls arbitrary: acc)
    case Nil
    show ?case by (simp add: call_pairs_def)
  next
    case (Cons kv calls)
    obtain k v where kv: "kv = (k, v)" by (cases kv)
    have "call_pairs (kv # calls) = map (Pair k) v @ call_pairs calls"
      by (simp add: kv call_pairs_def)
    then show ?case
      by (simp add: kv Cons.IH set_set_update set_set_iter image_Un image_image Un_assoc)
  qed
  from this [of "[]"] show ?thesis
    by (simp add: all_called_methods_def)
qed

lemma set_uncovered_methods:
  "set (uncovered_methods h t i)
     = set [m \<leftarrow> finditer match_def i.
              \<not> starts_with_underscore m
              \<and> m \<notin> set (map snd (finditer match_call t))
              \<and> m \<notin> set structural_methods]"
  by (auto simp: uncovered_methods_def Let_def set_py_set set_set_iter extract_method_defs_def
      set_all_called_methods extract_method_calls_pairs(1))

lemma literal_append: "literal p s = Some r \<Longrightarrow> s = p @ r"
  by (induction p s rule: literal.induct) (auto split: if_splits)

lemma lazy_args_shape:
  assumes "lazy_args s = Some (a, rest)"
  shows "s = a @ '')'' @ rest" and "CHR '')'' \<notin> set a" and "CHR 0x0A \<notin> set a"
proof -
  from assms have a: "a = takeWhile is_arg_char s"
    and r: "literal '')'' (dropWhile is_arg_char s) = Some rest"
    by (auto simp: lazy_args_def split: option.splits)
  from literal_append [OF r] have "dropWhile is_arg_char s = '')'' @ rest" .
  then have "takeWhile is_arg_char s @ '')'' @ rest = s"
    by (metis takeWhile_dropWhile_id)
  with a show "s = a @ '')'' @ rest" by simp
  have "\<forall>c \<in> set a. is_arg_char c"
    unfolding a by (auto dest: set_takeWhileD)
  then show "CHR '')'' \<notin> set a" and "CHR 0x0A \<notin> set a"
    by (auto simp: is_arg_char_def)
qed

lemma match_test_call_shape:
  assumes "match_test_call s = Some ((m, a), rest)"
  shows "\<exists>ws. s = ''.'' @ m @ ws @ ''('' @ a @ '')'' @ rest \<and> list_all is_space ws"
    and "CHR '')'' \<notin> set a" and "CHR 0x0A \<notin> set a"
    and "list_all is_word m"
proof -
  from assms obtain r r1 where r: "literal ''.'' s = Some r"
    and m: "m = takeWhile is_word r"
    and r1: "literal ''('' (dropWhile is_space (dropWhile is_word r)) = Some r1"
    and l: "lazy_args r1 = Some (a, rest)"
    by (auto simp: match_test_call_def Let_def split: option.splits if_splits)
  let ?ws = "takeWhile is_space (dropWhile is_word r)"
  have "s = ''.'' @ r" using literal_append [OF r] .
  moreover have "r = m @ dropWhile is_word r" by (simp add: m)
  moreover have "dropWhile is_word r = ?ws @ dropWhile is_space (dropWhile is_word r)" by simp
  moreover have "dropWhile is_space (dropWhile is_word r) = ''('' @ r1"
    using literal_append [OF r1] .
  moreover have "r1 = a @ '')'' @ rest" using lazy_args_shape(1) [OF l] .
  ultimately have "s = ''.'' @ m @ ?ws @ ''('' @ a @ '')'' @ rest"
    by (metis append_assoc)
  moreover have "list_all is_space ?ws"
    by (auto simp: list_all_iff dest: set_takeWhileD)
  ultimately show "\<exists>ws. s = ''.'' @ m @ ws @ ''('' @ a @ '')'' @ rest \<and> list_all is_space ws"
    by blast
  show "CHR '')'' \<notin> set a" and "CHR 0x0A \<notin> set a"
    using lazy_args_shape(2,3) [OF l] .
  show "list_all is_word m"
    by (auto simp: m list_all_iff dest: set_takeWhileD)
qed

lemma finditer_matches:
  "\<forall>s g r. pat s = Some (g, r) \<longrightarrow> suffix r s \<Longrightarrow> g \<in> set (finditer pat s)
     \<Longrightarrow> \<exists>s' rest. suffix s' s \<and> pat s' = Some (g, rest)"
proof (induction pat s rule: finditer.induct)
  case (1 pat s)
  note suffix_rest = "1.prems"(1)
  note member = "1.prems"(2)
  show ?case
  proof (cases "s = []")
    case True
    with member show ?thesis by (simp add: finditer.simps [of pat "[]"])
  next
    case False
    note nonempty = False
    show ?thesis
    proof (cases "pat s")
      case None
      with member nonempty have "g \<in> set (finditer pat (tl s))"
        by (subst (asm) finditer.simps) simp
      with "1.IH"(1) nonempty None suffix_rest obtain s' rest
        where "suffix s' (tl s)" "pat s' = Some (g, rest)" by blast
      moreover have "suffix (tl s) s" by (rule suffix_tl)
      ultimately show ?thesis by (meson suffix_order.trans)
    next
      case (Some a)
      obtain g' rest' where a: "a = (g', rest')" by (cases a)
      let ?next = "if length rest' < length s then rest' else tl s"
      from member nonempty Some a have "g = g' \<or> g \<in> set (finditer pat ?next)"
        by (subst (asm) finditer.simps) (simp split: if_splits)
      then show ?thesis
      proof
        assume "g = g'"
        with Some a show ?thesis by blast
      next
        assume "g \<in> set (finditer pat ?next)"
        with "1.IH"(2) [of a g' rest'] nonempty Some a suffix_rest obtain s' rest
          where s': "suffix s' ?next" "pat s' = Some (g, rest)" by blast
        have "suffix rest' s" using suffix_rest Some a by simp
        then have "suffix ?next s" by (simp add: suffix_tl)
        with s' show ?thesis by (meson suffix_order.trans)
      qed
    qed
  qed
qed

lemma match_test_call_suffix: "match_test_call s = Some (g, r) \<Longrightarrow> suffix r s"
proof -
  assume m: "match_test_call s = Some (g, r)"
  obtain name a where g: "g = (name, a)" by (cases g)
  from match_test_call_shape(1) [OF m [unfolded g]] obtain ws
    where "s = ''.'' @ name @ ws @ ''('' @ a @ '')'' @ r" by blast
  then have "s = (''.'' @ name @ ws @ ''('' @ a @ '')'') @ r" by simp
  then show ?thesis by (rule suffixI)
qed

lemma map_of_foldl_store: "map_of (foldl store acc ms) = map_of acc ++ map_of (rev ms)"
proof (induction ms arbitrary: acc)
  case Nil
  show ?case by simp
next
  case (Cons x ms)
  have "map_of (store acc x) = map_of acc ++ [fst x \<mapsto> snd x]"
    by (simp add: store_def update_conv')
  then show ?case
    by (simp add: Cons.IH map_add_assoc [symmetric]) (simp add: map_add_def fun_upd_def)
qed

lemma distinct_foldl_store:
  "distinct (map fst acc) \<Longrightarrow> distinct (map fst (foldl store acc ms))"
  by (induction ms arbitrary: acc) (simp_all add: store_def distinct_update)

lemma keys_foldl_store: "fst ` set (foldl store acc ms) = fst ` set acc \<union> fst ` set ms"
  by (induction ms arbitrary: acc) (auto simp: store_def dom_update)

lemma distinct_test_calls: "distinct (map fst (test_calls t))"
  by (simp add: test_calls_def distinct_foldl_store)

lemma test_calls_keys_words:
  assumes "k \<in> fst ` set (test_calls t)"
  shows "list_all is_word k"
proof -
  from assms have "k \<in> fst ` set (finditer match_test_call t)"
    by (simp add: test_calls_def keys_foldl_store)
  then obtain a where "(k, a) \<in> set (finditer match_test_call t)" by auto
  with finditer_matches [of match_test_call "(k, a)" t] obtain s' rest
    where "match_test_call s' = Some ((k, a), rest)"
    using match_test_call_suffix by blast
  then show ?thesis by (rule match_test_call_shape(4))
qed

lemma quote_not_word: "list_all is_word k \<Longrightarrow> CHR 0x27 \<notin> set k"
  by (auto simp: list_all_iff is_word_def)

lemma prefix_up_to_quote:
  "q \<notin> set m \<Longrightarrow> q \<notin> set k \<Longrightarrow> prefix (m @ [q]) (k @ q # rest) \<Longrightarrow> m = k"
proof (induction m arbitrary: k)
  case Nil
  then show ?case by (cases k) auto
next
  case (Cons x m)
  then show ?case by (cases k) auto
qed

lemma names_method_arity_message:
  assumes "list_all is_word m" "list_all is_word k"
  shows "names_method m (arity_message k a b) \<longleftrightarrow> m = k"
proof
  assume "names_method m (arity_message k a b)"
  then have "prefix (m @ [CHR 0x27])
      (k @ CHR 0x27 # ('' called with '' @ str_nat a @ '' params in test, but defined with ''
          @ str_nat b @ '' in implementation''))"
    by (simp add: names_method_def arity_message_def)
  with assms show "m = k"
    by (intro prefix_up_to_quote [where q = "CHR 0x27"]) (auto dest: quote_not_word)
next
  assume "m = k"
  then show "names_method m (arity_message k a b)"
    by (simp add: names_method_def arity_message_def)
qed

lemma check_signature_names:
  assumes "list_all is_word m" "list_all is_word k"
  shows "filter (names_method m) (check_signature sigs (k, a))
           = (if k = m then check_signature sigs (k, a) else [])"
  using names_method_arity_message [OF assms]
  by (auto simp: check_signature_def split: option.splits)

lemma concat_only_key:
  "distinct (map fst calls) \<Longrightarrow> map_of calls m = Some a \<Longrightarrow>
     concat (map (\<lambda>p. if fst p = m then f p else []) calls) = f (m, a)"
proof (induction calls)
  case Nil
  then show ?case by simp
next
  case (Cons p calls)
  show ?case
  proof (cases "fst p = m")
    case True
    with Cons.prems have "m \<notin> fst ` set calls" and p: "p = (m, a)"
      by (auto simp: prod_eq_iff)
    then have "concat (map (\<lambda>p. if fst p = m then f p else []) calls) = []"
      by (induction calls) auto
    with p show ?thesis by simp
  next
    case False
    with Cons show ?thesis by simp
  qed
qed

lemma mset_method_match_errors:
  "mset (method_match_errors h calls defs)
     = image_mset (undefined_message \<circ> snd) (filter_mset (is_undefined defs) (mset (call_pairs calls)))"
  by (simp add: method_match_errors_visited mset_visited_pairs)

lemma mset_new_errors: "mset (new_errors h1 t i) = mset (new_errors h2 t i)"
  by (simp add: new_errors_def mset_method_match_errors)

lemma set_uncovered_methods_hash:
  "set (uncovered_methods h1 t i) = set (uncovered_methods h2 t i)"
  by (simp only: set_uncovered_methods)

lemma set_untested_exceptions_hash:
  "set (untested_exceptions h1 t i) = set (untested_exceptions h2 t i)"
  by (simp only: set_untested_exceptions)

lemma length_new_warnings: "length (new_warnings h1 t i) = length (new_warnings h2 t i)"
proof -
  have "uncovered_methods h1 t i = [] \<longleftrightarrow> uncovered_methods h2 t i = []"
    using set_uncovered_methods_hash [of h1 t i h2] by (metis set_empty)
  moreover have "untested_exceptions h1 t i = [] \<longleftrightarrow> untested_exceptions h2 t i = []"
    using set_untested_exceptions_hash [of h1 t i h2] by (metis set_empty)
  ultimately show ?thesis
    by (simp add: new_warnings_def coverage_warnings_def exception_warnings_def)
qed

text \<open>
  The model of the iteration order leaves every order open: any arrangement of
  the elements of a set is its iteration order under the hash that numbers the
  elements in that arrangement.
\<close>

lemma position_in_distinct:
  assumes "distinct p" and "n < length p"
  shows "length (takeWhile (\<lambda>y. y \<noteq> p ! n) p) = n"
proof -
  have "takeWhile (\<lambda>y. y \<noteq> p ! n) p = take n p"
  proof (rule takeWhile_eq_take_P_nth)
    fix j
    assume "j < n" "j < length p"
    with assms show "p ! j \<noteq> p ! n"
      by (simp add: nth_eq_iff_index_eq)
  next
    show "\<not> p ! n \<noteq> p ! n" by simp
  qed
  with assms(2) show ?thesis by simp
qed

lemma filter_eq_in_distinct:
  "distinct xs \<Longrightarrow> k \<in> set xs \<Longrightarrow> (\<And>x. x \<in> set xs \<Longrightarrow> P x \<longleftrightarrow> x = k) \<Longrightarrow> filter P xs = [k]"
proof (induction xs)
  case Nil
  then show ?case by simp
next
  case (Cons x xs)
  show ?case
  proof (cases "x = k")
    case True
    with Cons.prems have "k \<notin> set xs" by simp
    with Cons.prems(3) have "filter P xs = []"
      by (auto simp: filter_empty_conv)
    with True Cons.prems(3) show ?thesis by simp
  next
    case False
    with Cons show ?thesis by auto
  qed
qed

lemma any_order_is_an_iteration_order:
  assumes "distinct s" and "distinct p" and "set p = set s"
  shows "\<exists>h. set_iter h s = p"
proof -
  let ?h = "\<lambda>x. int (length (takeWhile (\<lambda>y. y \<noteq> x) p))"
  have pos: "?h (p ! n) = int n" if "n < length p" for n
    using position_in_distinct [OF assms(2) that] by simp
  have inj: "?h x = ?h k \<longleftrightarrow> x = k" if "x \<in> set p" "k \<in> set p" for x k
  proof
    from that(1) obtain a where a: "a < length p" "p ! a = x"
      by (meson in_set_conv_nth)
    from that(2) obtain b where b: "b < length p" "p ! b = k"
      by (meson in_set_conv_nth)
    have "?h x = int a" using pos [OF a(1)] unfolding a(2) .
    moreover have "?h k = int b" using pos [OF b(1)] unfolding b(2) .
    moreover assume "?h x = ?h k"
    ultimately have "a = b" by linarith
    with a(2) b(2) show "x = k" by simp
  next
    assume "x = k"
    then show "?h x = ?h k" by (rule arg_cong)
  qed
  have "map ?h p = map int [0..<length p]"
    by (rule nth_equalityI) (simp_all add: pos)
  then have "sorted (map ?h p)"
    by (simp add: sorted_map)
  moreover have "mset p = mset s"
    using assms by (simp add: set_eq_iff_mset_eq_distinct)
  moreover have "filter (\<lambda>x. ?h k = ?h x) p = filter (\<lambda>x. ?h k = ?h x) s" if k: "k \<in> set p" for k
  proof -
    have same: "?h k = ?h x \<longleftrightarrow> x = k" if "x \<in> set p" for x
      using inj [OF that k] by metis
    have "filter (\<lambda>x. ?h k = ?h x) p = [k]"
      using assms(2) k same by (rule filter_eq_in_distinct)
    moreover have "filter (\<lambda>x. ?h k = ?h x) s = [k]"
    proof (rule filter_eq_in_distinct)
      show "distinct s" by (rule assms(1))
      show "k \<in> set s" using k assms(3) by simp
      show "?h k = ?h x \<longleftrightarrow> x = k" if "x \<in> set s" for x
        using same [of x] that assms(3) by simp
    qed
    ultimately show ?thesis by simp
  qed
  ultimately have "sort_key ?h s = p"
    by (intro properties_for_sort_key)
  then show ?thesis
    unfolding set_iter_def by blast
qed

lemma concat_no_key:
  "m \<notin> fst ` set calls \<Longrightarrow> concat (map (\<lambda>p. if fst p = m then f p else []) calls) = []"
  by (induction calls) auto

lemma mset_uncovered_methods_hash:
  "mset (set_iter h1 (uncovered_methods h1 t i)) = mset (set_iter h2 (uncovered_methods h2 t i))"
proof -
  have "distinct (uncovered_methods h1 t i)" "distinct (uncovered_methods h2 t i)"
    by (simp_all add: uncovered_methods_def Let_def distinct_py_set)
  with set_uncovered_methods_hash [of h1 t i h2]
  have "mset (uncovered_methods h1 t i) = mset (uncovered_methods h2 t i)"
    by (simp add: set_eq_iff_mset_eq_distinct)
  then show ?thesis by (simp add: mset_set_iter)
qed

lemma mset_untested_exceptions_hash:
  "mset (set_iter h1 (untested_exceptions h1 t i)) = mset (set_iter h2 (untested_exceptions h2 t i))"
proof -
  have "distinct (untested_exceptions h1 t i)" "distinct (untested_exceptions h2 t i)"
    by (simp_all add: untested_exceptions_def distinct_py_set)
  with set_untested_exceptions_hash [of h1 t i h2]
  have "mset (untested_exceptions h1 t i) = mset (untested_exceptions h2 t i)"
    by (simp add: set_eq_iff_mset_eq_distinct)
  then show ?thesis by (simp add: mset_set_iter)
qed

lemma new_warnings_listing:
  "new_warnings h t i =
     (if set_iter h (uncovered_methods h t i) = [] then []
      else [''Public methods without tests: {''
              @ join '', '' (map py_repr (set_iter h (uncovered_methods h t i))) @ ''}''])
     @ (if set_iter h (untested_exceptions h t i) = [] then []
        else [''Exceptions declared but not tested: {''
                @ join '', '' (map py_repr (set_iter h (untested_exceptions h t i))) @ ''}''])"
  by (simp add: new_warnings_def coverage_warnings_def exception_warnings_def py_set_str_def
      set_iter_empty)

text \<open>
  The untested-exception rule appends at most one warning and no error. It takes
  as declared names the pieces, between commas and with the blanks removed, of
  the text that each \<^verbatim>\<open>throws\<close> clause captures, and as asserted names the
  captures of the assertion pattern; the one warning lists the declared pieces
  that are not asserted, each once, as a printed set.
\<close>

lemma untested_exception_pieces:
  "\<exists>names. distinct names
     \<and> set names = (\<Union>exc \<in> set (finditer match_throws (impl_code m)).
                      set (split_on CHR '','' (filter (\<lambda>c. c \<noteq> CHR '' '') exc)))
                   - set (finditer match_exception_test (test_code m))
     \<and> warnings (snd (validate_exception_handling h m)) =
         warnings m @
           (if names = [] then []
            else [''Exceptions declared but not tested: {'' @ join '', '' (map py_repr names) @ ''}''])
     \<and> errors (snd (validate_exception_handling h m)) = errors m"
proof -
  let ?u = "untested_exceptions h (test_code m) (impl_code m)"
  let ?names = "set_iter h ?u"
  have "distinct ?names"
    by (simp add: distinct_set_iter untested_exceptions_def distinct_py_set)
  moreover have "set ?names = (\<Union>exc \<in> set (finditer match_throws (impl_code m)).
                      set (split_on CHR '','' (filter (\<lambda>c. c \<noteq> CHR '' '') exc)))
                   - set (finditer match_exception_test (test_code m))"
    by (simp add: set_set_iter set_untested_exceptions set_thrown_exceptions
        tested_exceptions_def set_py_set)
  moreover have "warnings (snd (validate_exception_handling h m)) =
         warnings m @
           (if ?names = [] then []
            else [''Exceptions declared but not tested: {'' @ join '', '' (map py_repr ?names) @ ''}''])"
    by (simp add: validate_exception_handling_appends exception_warnings_def py_set_str_def
        set_iter_empty)
  moreover have "errors (snd (validate_exception_handling h m)) = errors m"
    by (simp add: validate_exception_handling_appends)
  ultimately show ?thesis by blast
qed

lemma untested_exception_example:
  "warnings (snd (validate_exception_handling hash_by_length
      (new_matcher ''assertThatThrownBy { svc.f() }.isInstanceOf(ValidationError::class.java)''
                   ''fun f() throws ValidationError, NotFoundError'')))
    = [''Exceptions declared but not tested: {'' @ [CHR 0x27] @ ''NotFoundError'' @ [CHR 0x27] @ ''}'']"
proof -
  let ?t = "''assertThatThrownBy { svc.f() }.isInstanceOf(ValidationError::class.java)''"
  let ?i = "''fun f() throws ValidationError, NotFoundError''"
  have thrown: "finditer match_throws ?i = [''ValidationError, NotFoundError'']"
    by code_simp
  have tested: "finditer match_exception_test ?t = [''ValidationError'']"
    by code_simp
  have split: "split_on CHR '','' (filter (\<lambda>c. c \<noteq> CHR '' '') ''ValidationError, NotFoundError'')
      = [''ValidationError'', ''NotFoundError'']"
    by code_simp
  from untested_exception_pieces [of "new_matcher ?t ?i" hash_by_length]
  obtain names where names: "distinct names"
    "set names = (\<Union>exc \<in> set (finditer match_throws ?i).
                      set (split_on CHR '','' (filter (\<lambda>c. c \<noteq> CHR '' '') exc)))
                   - set (finditer match_exception_test ?t)"
    "warnings (snd (validate_exception_handling hash_by_length (new_matcher ?t ?i))) =
           (if names = [] then []
            else [''Exceptions declared but not tested: {'' @ join '', '' (map py_repr names) @ ''}''])"
    unfolding new_matcher_def by auto
  have "set names = {''NotFoundError''}"
    unfolding names(2) thrown tested by (simp add: split)
  with names(1) have "names = [''NotFoundError'']"
    by (rule distinct_singleton_list)
  moreover have "py_repr ''NotFoundError'' = [CHR 0x27] @ ''NotFoundError'' @ [CHR 0x27]"
    by code_simp
  ultimately show ?thesis
    using names(3) by simp
qed

section \<open>The claims\<close>

subsection \<open>A missing file\<close>

text \<open>
  C1. A run on a test file that does not exist: \<^verbatim>\<open>validate_files\<close> catches the
  \<^verbatim>\<open>FileNotFoundError\<close> and returns a result with the two keys \<^verbatim>\<open>success\<close> and
  \<^verbatim>\<open>error\<close> only, and the process ends with status 1. It does not end by
  \<^verbatim>\<open>sys.exit\<close>, though: \<^verbatim>\<open>print_report\<close> subscripts the result by
  \<^verbatim>\<open>error_count\<close>, and the \<^verbatim>\<open>KeyError\<close> is caught nowhere.
\<close>

theorem nonexistent_file_keyerror:
  "validate_files Map.empty hash_by_length ''missing_test.kt'' ''impl.kt''
     = [(''success'', PyBool False),
        (''error'', PyStr (''File not found: [Errno 2] No such file or directory: ''
                            @ [CHR 0x27] @ ''missing_test.kt'' @ [CHR 0x27]))]
   \<and> snd (main Map.empty hash_by_length [''test_impl_matcher.py'', ''missing_test.kt'', ''impl.kt''])
       = Uncaught (KeyError ''error_count'')
   \<and> exit_code (snd (main Map.empty hash_by_length
         [''test_impl_matcher.py'', ''missing_test.kt'', ''impl.kt''])) = 1"
proof -
  have "py_repr ''missing_test.kt'' = [CHR 0x27] @ ''missing_test.kt'' @ [CHR 0x27]"
    by (simp add: py_repr_def repr_char_def Let_def)
  then have "validate_files Map.empty hash_by_length ''missing_test.kt'' ''impl.kt''
     = [(''success'', PyBool False),
        (''error'', PyStr (''File not found: [Errno 2] No such file or directory: ''
                            @ [CHR 0x27] @ ''missing_test.kt'' @ [CHR 0x27]))]"
    by (simp add: validate_files_def file_not_found_str_def)
  moreover have "snd (main Map.empty hash_by_length
        [''test_impl_matcher.py'', ''missing_test.kt'', ''impl.kt''])
       = Uncaught (KeyError ''error_count'')"
    by (rule main_missing_file) simp
  ultimately show ?thesis by simp
qed

subsection \<open>The captured argument text\<close>

text \<open>
  C2. Every argument text that the call-site pattern of the arity rule captures
  stands in the test text between the opening parenthesis of the call and the
  first closing parenthesis after it, with no line feed in between: the capture
  holds no closing parenthesis, so an argument that is itself a call with
  parentheses is cut at that call's closing parenthesis.
\<close>

theorem captured_args_end_at_first_paren:
  assumes "(m, a) \<in> set (finditer match_test_call t)"
  shows "\<exists>s ws rest. suffix s t \<and> s = ''.'' @ m @ ws @ ''('' @ a @ '')'' @ rest
           \<and> list_all is_space ws \<and> CHR '')'' \<notin> set a \<and> CHR 0x0A \<notin> set a"
proof -
  from finditer_matches [of match_test_call "(m, a)" t] assms obtain s rest
    where s: "suffix s t" and match: "match_test_call s = Some ((m, a), rest)"
    using match_test_call_suffix by blast
  from match_test_call_shape [OF match] s show ?thesis by blast
qed

theorem captured_args_end_at_first_paren_witness:
  "\<exists>s ws rest. suffix s ''obj.foo(bar(a), b)'' \<and> s = ''.'' @ ''foo'' @ ws @ ''('' @ ''bar(a'' @ '')'' @ rest
           \<and> list_all is_space ws \<and> CHR '')'' \<notin> set ''bar(a'' \<and> CHR 0x0A \<notin> set ''bar(a''"
proof -
  have "finditer match_test_call ''obj.foo(bar(a), b)'' = [(''foo'', ''bar(a'')]"
    by code_simp
  then have "(''foo'', ''bar(a'') \<in> set (finditer match_test_call ''obj.foo(bar(a), b)'')"
    by simp
  then show ?thesis by (rule captured_args_end_at_first_paren)
qed

text \<open>
  The nested call \<^verbatim>\<open>bar(a)\<close> in the first argument: the capture of the code ends
  inside the argument list, the depth-counting capture takes both arguments.
\<close>

theorem nested_call_truncated_counterexample:
  "finditer match_test_call ''obj.foo(bar(a), b)'' = [(''foo'', ''bar(a'')]
   \<and> finditer spec_match_test_call ''obj.foo(bar(a), b)'' = [(''foo'', ''bar(a), b'')]
   \<and> test_calls ''obj.foo(bar(a), b)'' = [(''foo'', ''bar(a'')]"
  by code_simp

subsection \<open>One argument text for each method name\<close>

text \<open>
  C3. The dictionary of test calls of the arity rule holds every called method
  name once, with the argument text of the last call site matched for that
  name; the texts of the earlier call sites of the name are overwritten.
\<close>

theorem test_calls_last_call_site:
  "map_of (test_calls t) = map_of (rev (finditer match_test_call t))
   \<and> distinct (map fst (test_calls t))"
  by (simp add: test_calls_def map_of_foldl_store distinct_foldl_store)

theorem test_calls_last_call_site_witness:
  "map_of (test_calls ''svc.foo(a) svc.foo(a, b)'') ''foo'' = Some ''a, b''"
proof -
  have "finditer match_test_call ''svc.foo(a) svc.foo(a, b)'' = [(''foo'', ''a''), (''foo'', ''a, b'')]"
    by code_simp
  with test_calls_last_call_site [of "''svc.foo(a) svc.foo(a, b)''"] show ?thesis
    by simp
qed

text \<open>
  Two call sites of \<^verbatim>\<open>foo\<close>, with one and with two arguments: the dictionary
  keeps the second text only, so the count 1 is not retained.
\<close>

theorem earlier_arity_lost_counterexample:
  "finditer match_test_call ''svc.foo(a) svc.foo(a, b)'' = [(''foo'', ''a''), (''foo'', ''a, b'')]
   \<and> map (param_count \<circ> snd) (finditer match_test_call ''svc.foo(a) svc.foo(a, b)'') = [1, 2]
   \<and> test_calls ''svc.foo(a) svc.foo(a, b)'' = [(''foo'', ''a, b'')]
   \<and> map (param_count \<circ> snd) (test_calls ''svc.foo(a) svc.foo(a, b)'') = [2]"
  by code_simp

subsection \<open>Two runs on the same texts\<close>

text \<open>
  C4. Two runs on the same pair of texts, in two interpreter processes (two
  hash functions): the reports have the same \<^verbatim>\<open>success\<close>, the same counts and
  the same errors up to their order; and the warnings of the two runs are
  the same messages, each listing between its braces all the names of the same set of
  untested methods, and of the same set of untested exceptions, in an order that
  may differ between the runs.
\<close>

theorem runs_agree_up_to_set_order:
  "fst (fst (run_all_checks h1 (new_matcher t i))) = fst (fst (run_all_checks h2 (new_matcher t i)))
   \<and> mset (errors (snd (run_all_checks h1 (new_matcher t i))))
       = mset (errors (snd (run_all_checks h2 (new_matcher t i))))
   \<and> length (warnings (snd (run_all_checks h1 (new_matcher t i))))
       = length (warnings (snd (run_all_checks h2 (new_matcher t i))))
   \<and> map_of (snd (fst (run_all_checks h1 (new_matcher t i)))) ''error_count''
       = map_of (snd (fst (run_all_checks h2 (new_matcher t i)))) ''error_count''
   \<and> map_of (snd (fst (run_all_checks h1 (new_matcher t i)))) ''warning_count''
       = map_of (snd (fst (run_all_checks h2 (new_matcher t i)))) ''warning_count''
   \<and> set (uncovered_methods h1 t i) = set (uncovered_methods h2 t i)
   \<and> set (untested_exceptions h1 t i) = set (untested_exceptions h2 t i)
   \<and> (\<exists>methods1 methods2 exceptions1 exceptions2.
         mset methods1 = mset methods2 \<and> mset exceptions1 = mset exceptions2
         \<and> warnings (snd (run_all_checks h1 (new_matcher t i))) =
             (if methods1 = [] then []
              else [''Public methods without tests: {''
                      @ join '', '' (map py_repr methods1) @ ''}''])
             @ (if exceptions1 = [] then []
                else [''Exceptions declared but not tested: {''
                        @ join '', '' (map py_repr exceptions1) @ ''}''])
         \<and> warnings (snd (run_all_checks h2 (new_matcher t i))) =
             (if methods2 = [] then []
              else [''Public methods without tests: {''
                      @ join '', '' (map py_repr methods2) @ ''}''])
             @ (if exceptions2 = [] then []
                else [''Exceptions declared but not tested: {''
                        @ join '', '' (map py_repr exceptions2) @ ''}'']))"
proof -
  have e: "mset (errors (snd (run_all_checks h1 (new_matcher t i))))
       = mset (errors (snd (run_all_checks h2 (new_matcher t i))))"
    by (simp add: run_all_checks_state new_matcher_def mset_new_errors [of h1 t i h2])
  then have n: "length (errors (snd (run_all_checks h1 (new_matcher t i))))
       = length (errors (snd (run_all_checks h2 (new_matcher t i))))"
    by (rule mset_eq_length)
  have w: "length (warnings (snd (run_all_checks h1 (new_matcher t i))))
       = length (warnings (snd (run_all_checks h2 (new_matcher t i))))"
    by (simp add: run_all_checks_state new_matcher_def length_new_warnings [of h1 t i h2])
  from n have z: "errors (snd (run_all_checks h1 (new_matcher t i))) = []
      \<longleftrightarrow> errors (snd (run_all_checks h2 (new_matcher t i))) = []"
    by (metis length_0_conv)
  have listing: "warnings (snd (run_all_checks h (new_matcher t i))) = new_warnings h t i" for h
    by (simp add: run_all_checks_state new_matcher_def)
  have "\<exists>methods1 methods2 exceptions1 exceptions2.
         mset methods1 = mset methods2 \<and> mset exceptions1 = mset exceptions2
         \<and> warnings (snd (run_all_checks h1 (new_matcher t i))) =
             (if methods1 = [] then []
              else [''Public methods without tests: {''
                      @ join '', '' (map py_repr methods1) @ ''}''])
             @ (if exceptions1 = [] then []
                else [''Exceptions declared but not tested: {''
                        @ join '', '' (map py_repr exceptions1) @ ''}''])
         \<and> warnings (snd (run_all_checks h2 (new_matcher t i))) =
             (if methods2 = [] then []
              else [''Public methods without tests: {''
                      @ join '', '' (map py_repr methods2) @ ''}''])
             @ (if exceptions2 = [] then []
                else [''Exceptions declared but not tested: {''
                        @ join '', '' (map py_repr exceptions2) @ ''}''])"
    unfolding listing
    using mset_uncovered_methods_hash [of h1 t i h2] mset_untested_exceptions_hash [of h1 t i h2]
      new_warnings_listing [of h1 t i] new_warnings_listing [of h2 t i]
    by blast
  moreover have "fst (fst (run_all_checks h1 (new_matcher t i)))
      = fst (fst (run_all_checks h2 (new_matcher t i)))"
    using z by (simp add: run_all_checks_report)
  moreover have "map_of (snd (fst (run_all_checks h1 (new_matcher t i)))) ''error_count''
       = map_of (snd (fst (run_all_checks h2 (new_matcher t i)))) ''error_count''"
    using n by (simp add: run_all_checks_report)
  moreover have "map_of (snd (fst (run_all_checks h1 (new_matcher t i)))) ''warning_count''
       = map_of (snd (fst (run_all_checks h2 (new_matcher t i)))) ''warning_count''"
    using w by (simp add: run_all_checks_report)
  ultimately show ?thesis
    using e w set_uncovered_methods_hash [of h1 t i h2] set_untested_exceptions_hash [of h1 t i h2]
    by blast
qed

theorem runs_agree_up_to_set_order_witness:
  "mset (errors (snd (run_all_checks hash_by_length (new_matcher ''svc.ab() svc.c()'' ''fun de() fun f()''))))
     = mset (errors (snd (run_all_checks hash_by_neg_length (new_matcher ''svc.ab() svc.c()'' ''fun de() fun f()''))))
   \<and> set (uncovered_methods hash_by_length ''svc.ab() svc.c()'' ''fun de() fun f()'')
     = set (uncovered_methods hash_by_neg_length ''svc.ab() svc.c()'' ''fun de() fun f()'')"
  using runs_agree_up_to_set_order [of hash_by_length "''svc.ab() svc.c()''" "''fun de() fun f()''"
      hash_by_neg_length]
  by simp

text \<open>
  Two methods without tests and two calls of undefined methods: under the two
  hash functions the warning lists the two names in the two orders, and the two
  errors come in the two orders.
\<close>

theorem report_depends_on_hash_counterexample:
  "warnings (snd (run_all_checks hash_by_length (new_matcher ''svc.ab() svc.c()'' ''fun de() fun f()'')))
     = [''Public methods without tests: {'' @ [CHR 0x27] @ ''f'' @ [CHR 0x27] @ '', ''
          @ [CHR 0x27] @ ''de'' @ [CHR 0x27] @ ''}'']
   \<and> warnings (snd (run_all_checks hash_by_neg_length (new_matcher ''svc.ab() svc.c()'' ''fun de() fun f()'')))
     = [''Public methods without tests: {'' @ [CHR 0x27] @ ''de'' @ [CHR 0x27] @ '', ''
          @ [CHR 0x27] @ ''f'' @ [CHR 0x27] @ ''}'']
   \<and> errors (snd (run_all_checks hash_by_length (new_matcher ''svc.ab() svc.c()'' ''fun de() fun f()'')))
     = [undefined_message ''c'', undefined_message ''ab'']
   \<and> errors (snd (run_all_checks hash_by_neg_length (new_matcher ''svc.ab() svc.c()'' ''fun de() fun f()'')))
     = [undefined_message ''ab'', undefined_message ''c'']
   \<and> snd (fst (run_all_checks hash_by_length (new_matcher ''svc.ab() svc.c()'' ''fun de() fun f()'')))
     \<noteq> snd (fst (run_all_checks hash_by_neg_length (new_matcher ''svc.ab() svc.c()'' ''fun de() fun f()'')))"
  by code_simp

subsection \<open>The arity rule\<close>

text \<open>
  C5. The arity rule keeps, for a method name, the argument text of the last
  call \<^verbatim>\<open>.name(...)\<close> of the tests whose parentheses close on one line, and
  the parameter text of the last definition \<^verbatim>\<open>fun name(...)\<close> whose
  parentheses close on one line. For a name with both, it appends exactly one
  error naming the method when the numbers of non-blank comma-separated pieces
  of the two texts differ, and this error gives both numbers; it appends no
  error naming the method when the numbers agree, or when one of the two texts
  is missing.
\<close>

theorem arity_rule:
  assumes "list_all is_word m"
  shows "filter (names_method m) (errors (snd (validate_signature_match (new_matcher t i))))
           = (case map_of (rev (finditer match_test_call t)) m of
                None \<Rightarrow> []
              | Some args \<Rightarrow>
                  (case map_of (rev (finditer match_impl_sig i)) m of
                     None \<Rightarrow> []
                   | Some params \<Rightarrow>
                       if param_count args \<noteq> param_count params
                       then [arity_message m (param_count args) (param_count params)]
                       else []))"
proof -
  have calls: "map_of (test_calls t) = map_of (rev (finditer match_test_call t))"
    by (simp add: test_calls_def map_of_foldl_store)
  have sigs: "map_of (impl_sigs i) = map_of (rev (finditer match_impl_sig i))"
    by (simp add: impl_sigs_def map_of_foldl_store)
  have only: "filter (names_method m) (signature_errors t i)
          = concat (map (\<lambda>p. if fst p = m then check_signature (impl_sigs i) p else [])
                      (test_calls t))"
    unfolding signature_errors_def filter_concat map_map
  proof (intro arg_cong [where f = concat] map_cong refl)
    fix p
    assume "p \<in> set (test_calls t)"
    then have "list_all is_word (fst p)"
      by (intro test_calls_keys_words) auto
    from check_signature_names [OF assms this, of "impl_sigs i" "snd p"]
    show "(filter (names_method m) \<circ> check_signature (impl_sigs i)) p
            = (if fst p = m then check_signature (impl_sigs i) p else [])"
      by (cases p) simp
  qed
  have "filter (names_method m) (errors (snd (validate_signature_match (new_matcher t i))))
           = (case map_of (test_calls t) m of
                None \<Rightarrow> []
              | Some args \<Rightarrow>
                  (case map_of (impl_sigs i) m of
                     None \<Rightarrow> []
                   | Some params \<Rightarrow>
                       if param_count args \<noteq> param_count params
                       then [arity_message m (param_count args) (param_count params)]
                       else []))"
  proof (cases "map_of (test_calls t) m")
    case None
    then have "m \<notin> fst ` set (test_calls t)"
      by (simp add: map_of_eq_None_iff)
    then have "filter (names_method m) (signature_errors t i) = []"
      unfolding only by (rule concat_no_key)
    with None show ?thesis
      by (simp add: validate_signature_match_appends new_matcher_def)
  next
    case (Some args)
    have "filter (names_method m) (signature_errors t i) = check_signature (impl_sigs i) (m, args)"
      unfolding only using distinct_test_calls Some by (rule concat_only_key)
    with Some show ?thesis
      by (simp add: validate_signature_match_appends new_matcher_def check_signature_def)
  qed
  then show ?thesis
    unfolding calls sigs .
qed

theorem arity_rule_witness:
  "filter (names_method ''foo'')
     (errors (snd (validate_signature_match (new_matcher ''obj.foo(a, b)'' ''fun foo(x, y, z)''))))
     = [''Method '' @ [CHR 0x27] @ ''foo'' @ [CHR 0x27]
          @ '' called with 2 params in test, but defined with 3 in implementation'']
   \<and> filter (names_method ''foo'')
     (errors (snd (validate_signature_match (new_matcher ''obj.foo(a, b)'' ''fun foo(x, y)'')))) = []
   \<and> length (errors (snd (validate_signature_match
        (new_matcher ''obj.foo(a, b)'' ''fun foo(x, y, z)'')))) = 1
   \<and> length (errors (snd (validate_signature_match
        (new_matcher ''obj.foo(a, b)'' ''fun foo(x, y)'')))) = 0"
proof -
  have word: "list_all is_word ''foo''"
    by code_simp
  have call: "finditer match_test_call ''obj.foo(a, b)'' = [(''foo'', ''a, b'')]"
    by code_simp
  have sig3: "finditer match_impl_sig ''fun foo(x, y, z)'' = [(''foo'', ''x, y, z'')]"
    by code_simp
  have sig2: "finditer match_impl_sig ''fun foo(x, y)'' = [(''foo'', ''x, y'')]"
    by code_simp
  have counts: "param_count ''a, b'' = 2" "param_count ''x, y, z'' = 3" "param_count ''x, y'' = 2"
    by code_simp+
  have message: "arity_message ''foo'' 2 3 = ''Method '' @ [CHR 0x27] @ ''foo'' @ [CHR 0x27]
          @ '' called with 2 params in test, but defined with 3 in implementation''"
    by code_simp
  have lengths: "length (errors (snd (validate_signature_match
        (new_matcher ''obj.foo(a, b)'' ''fun foo(x, y, z)'')))) = 1"
    "length (errors (snd (validate_signature_match
        (new_matcher ''obj.foo(a, b)'' ''fun foo(x, y)'')))) = 0"
    by code_simp+
  show ?thesis
    using arity_rule [OF word, of "''obj.foo(a, b)''" "''fun foo(x, y, z)''"]
      arity_rule [OF word, of "''obj.foo(a, b)''" "''fun foo(x, y)''"] lengths
    unfolding call sig3 sig2 by (simp add: counts message)
qed

text \<open>
  Call sites that the rule does not compare: the first of two call sites of
  \<^verbatim>\<open>foo\<close> has one argument against two parameters, and a call whose arguments
  go over two lines has two arguments against three parameters; the rule
  appends no error in either case.
\<close>

theorem uncompared_call_sites_counterexample:
  "finditer match_test_call ''svc.foo(a) svc.foo(a, b)'' = [(''foo'', ''a''), (''foo'', ''a, b'')]
   \<and> finditer match_impl_sig ''fun foo(x, y)'' = [(''foo'', ''x, y'')]
   \<and> param_count ''a'' = 1 \<and> param_count ''x, y'' = 2
   \<and> errors (snd (validate_signature_match
        (new_matcher ''svc.foo(a) svc.foo(a, b)'' ''fun foo(x, y)''))) = []
   \<and> finditer match_call (''obj.foo(a,'' @ [CHR 0x0A] @ '' b)'') = [(''obj'', ''foo'')]
   \<and> finditer match_def ''fun foo(x, y, z)'' = [''foo'']
   \<and> finditer spec_match_test_call (''obj.foo(a,'' @ [CHR 0x0A] @ '' b)'')
       = [(''foo'', ''a,'' @ [CHR 0x0A] @ '' b'')]
   \<and> param_count (''a,'' @ [CHR 0x0A] @ '' b'') = 2 \<and> param_count ''x, y, z'' = 3
   \<and> errors (snd (validate_signature_match
        (new_matcher (''obj.foo(a,'' @ [CHR 0x0A] @ '' b)'') ''fun foo(x, y, z)''))) = []
   \<and> map_of (snd (fst (run_all_checks hash_by_length
        (new_matcher (''obj.foo(a,'' @ [CHR 0x0A] @ '' b)'') ''fun foo(x, y, z)''))))
        ''error_count'' = Some (PyInt 0)"
  by code_simp

subsection \<open>The exit status\<close>

text \<open>
  C6. For every file system, hash and argument list: the process ends with
  status 0 when both files are read and the run leaves no error, and with
  status 1 in every other case; and the \<^verbatim>\<open>success\<close> entry of the report of any
  instance is the test whether its list of errors is empty, next to the
  \<^verbatim>\<open>error_count\<close> entry with the length of that list. The list of warnings
  occurs in neither.
\<close>

theorem exit_code_contract:
  "exit_code (snd (main fs h argv)) =
     (case argv of
        script # test_file # impl_file # rest \<Rightarrow>
          (case (fs test_file, fs impl_file) of
             (Some t, Some i) \<Rightarrow>
               if length (errors (snd (run_all_checks h (new_matcher t i)))) = 0 then 0 else 1
           | _ \<Rightarrow> 1)
      | _ \<Rightarrow> 1)
   \<and> map_of (snd (fst (run_all_checks h m))) ''success''
       = Some (PyBool (length (errors (snd (run_all_checks h m))) = 0))
   \<and> map_of (snd (fst (run_all_checks h m))) ''error_count''
       = Some (PyInt (length (errors (snd (run_all_checks h m)))))"
proof -
  have report: "map_of (snd (fst (run_all_checks h m))) ''success''
       = Some (PyBool (length (errors (snd (run_all_checks h m))) = 0))
     \<and> map_of (snd (fst (run_all_checks h m))) ''error_count''
       = Some (PyInt (length (errors (snd (run_all_checks h m)))))" for m
    by (simp add: run_all_checks_report)
  have short: "exit_code (snd (main fs h argv)) = 1" if "length argv < 3"
    using that by (simp add: main_def)
  have missing: "exit_code (snd (main fs h (script # test_file # impl_file # rest))) = 1"
    if "fs test_file = None \<or> fs impl_file = None" for script test_file impl_file rest
    using main_missing_file [OF that] by simp
  have both: "exit_code (snd (main fs h (script # test_file # impl_file # rest)))
      = (if length (errors (snd (run_all_checks h (new_matcher t i)))) = 0 then 0 else 1)"
    if "fs test_file = Some t" "fs impl_file = Some i" for script test_file impl_file rest t i
  proof -
    let ?r = "validate_files fs h test_file impl_file"
    have r: "?r = snd (fst (run_all_checks h (new_matcher t i)))"
      using that by (simp add: validate_files_def)
    have "snd (print_report ?r) = None"
      unfolding r run_all_checks_report snd_conv by (rule print_report_of_run)
    then obtain out where out: "print_report ?r = (out, None)"
      by (cases "print_report ?r") simp
    have "map_of ?r ''success''
            = Some (PyBool (length (errors (snd (run_all_checks h (new_matcher t i)))) = 0))"
      unfolding r by (simp add: run_all_checks_report)
    with out show ?thesis
      by (simp add: main_def Let_def)
  qed
  have "exit_code (snd (main fs h argv)) =
     (case argv of
        script # test_file # impl_file # rest \<Rightarrow>
          (case (fs test_file, fs impl_file) of
             (Some t, Some i) \<Rightarrow>
               if length (errors (snd (run_all_checks h (new_matcher t i)))) = 0 then 0 else 1
           | _ \<Rightarrow> 1)
      | _ \<Rightarrow> 1)"
  proof (cases argv)
    case Nil
    then show ?thesis using short by simp
  next
    case (Cons a as)
    note outer = Cons
    show ?thesis
    proof (cases as)
      case Nil
      then show ?thesis using short outer by simp
    next
      case (Cons b bs)
      note mid = Cons
      show ?thesis
      proof (cases bs)
        case Nil
        then show ?thesis using short outer mid by simp
      next
        case (Cons c cs)
        show ?thesis
          using missing [of b c a cs] both [of b _ c _ a cs]
          by (simp add: outer mid Cons split: option.splits)
      qed
    qed
  qed
  with report show ?thesis by simp
qed

theorem exit_code_contract_witness:
  "exit_code (snd (main [''t.kt'' \<mapsto> ''svc.foo()'', ''i.kt'' \<mapsto> ''fun foo() fun bar()'']
       hash_by_length [''test_impl_matcher.py'', ''t.kt'', ''i.kt''])) = 0
   \<and> length (warnings (snd (run_all_checks hash_by_length
         (new_matcher ''svc.foo()'' ''fun foo() fun bar()'')))) = 1
   \<and> exit_code (snd (main [''t.kt'' \<mapsto> ''svc.foo()'', ''i.kt'' \<mapsto> ''fun bar()'']
       hash_by_length [''test_impl_matcher.py'', ''t.kt'', ''i.kt''])) = 1"
proof -
  have e0: "errors (snd (run_all_checks hash_by_length
              (new_matcher ''svc.foo()'' ''fun foo() fun bar()''))) = []"
    by code_simp
  have w1: "length (warnings (snd (run_all_checks hash_by_length
              (new_matcher ''svc.foo()'' ''fun foo() fun bar()'')))) = 1"
    by code_simp
  have e1: "length (errors (snd (run_all_checks hash_by_length
              (new_matcher ''svc.foo()'' ''fun bar()'')))) = 1"
    by code_simp
  show ?thesis
    using exit_code_contract [of "[''t.kt'' \<mapsto> ''svc.foo()'', ''i.kt'' \<mapsto> ''fun foo() fun bar()'']"
        hash_by_length "[''test_impl_matcher.py'', ''t.kt'', ''i.kt'']" "new_matcher [] []"]
      exit_code_contract [of "[''t.kt'' \<mapsto> ''svc.foo()'', ''i.kt'' \<mapsto> ''fun bar()'']"
        hash_by_length "[''test_impl_matcher.py'', ''t.kt'', ''i.kt'']" "new_matcher [] []"]
      e0 w1 e1
    by simp
qed

subsection \<open>The undefined-method rule\<close>

text \<open>
  C7. The undefined-method rule appends one error for every distinct
  (receiver, method) pair called in the tests whose method is neither a helper
  name nor defined in the implementation. When the test text gains one call
  site, all other call sites being the same, the number of errors grows by one
  if the pair is new, its method is not a helper name and is not defined, and
  stays the same otherwise.
\<close>

theorem undefined_method_rule:
  "length (errors (snd (validate_method_match h (new_matcher t i))))
     = card {p \<in> set (finditer match_call t).
              snd p \<notin> set helper_methods \<and> snd p \<notin> set (finditer match_def i)}
   \<and> (finditer match_call t' = finditer match_call t @ [(r, m)] \<longrightarrow>
        length (errors (snd (validate_method_match h (new_matcher t' i))))
          = length (errors (snd (validate_method_match h (new_matcher t i))))
            + (if (r, m) \<in> set (finditer match_call t) \<or> m \<in> set helper_methods
                  \<or> m \<in> set (finditer match_def i)
               then 0 else 1))"
proof -
  let ?P = "\<lambda>p :: string \<times> string. snd p \<notin> set helper_methods \<and> snd p \<notin> set (finditer match_def i)"
  have count: "length (errors (snd (validate_method_match h (new_matcher t i))))
     = card {p \<in> set (finditer match_call t). ?P p}" for t
    using length_method_match_errors [OF extract_method_calls_pairs(2), of h t "extract_method_defs i"]
    by (simp add: validate_method_match_appends new_matcher_def extract_method_calls_pairs(1)
        is_undefined_def extract_method_defs_def set_py_set)
  have "length (errors (snd (validate_method_match h (new_matcher t' i))))
          = length (errors (snd (validate_method_match h (new_matcher t i))))
            + (if (r, m) \<in> set (finditer match_call t) \<or> m \<in> set helper_methods
                  \<or> m \<in> set (finditer match_def i)
               then 0 else 1)"
    if "finditer match_call t' = finditer match_call t @ [(r, m)]"
  proof -
    have "set (finditer match_call t') = insert (r, m) (set (finditer match_call t))"
      using that by simp
    then show ?thesis
      using card_insert_filter [where S = "set (finditer match_call t)" and P = ?P and x = "(r, m)"]
      by (simp add: count)
  qed
  with count [of t] show ?thesis by blast
qed

theorem undefined_method_rule_witness:
  "length (errors (snd (validate_method_match hash_by_length
      (new_matcher ''svc.foo()'' ''fun baz()'')))) = 1
   \<and> length (errors (snd (validate_method_match hash_by_length
      (new_matcher ''svc.foo() repo.bar()'' ''fun baz()'')))) = 2"
proof -
  have before: "length (errors (snd (validate_method_match hash_by_length
      (new_matcher ''svc.foo()'' ''fun baz()'')))) = 1"
    by code_simp
  have calls: "finditer match_call ''svc.foo()'' = [(''svc'', ''foo'')]"
    by code_simp
  have more: "finditer match_call ''svc.foo() repo.bar()''
      = finditer match_call ''svc.foo()'' @ [(''repo'', ''bar'')]"
    by code_simp
  have defs: "finditer match_def ''fun baz()'' = [''baz'']"
    by code_simp
  have "length (errors (snd (validate_method_match hash_by_length
      (new_matcher ''svc.foo() repo.bar()'' ''fun baz()''))))
     = length (errors (snd (validate_method_match hash_by_length
         (new_matcher ''svc.foo()'' ''fun baz()''))))
       + (if (''repo'', ''bar'') \<in> set (finditer match_call ''svc.foo()'')
             \<or> ''bar'' \<in> set helper_methods
             \<or> ''bar'' \<in> set (finditer match_def ''fun baz()'')
          then 0 else 1)"
    using undefined_method_rule [of hash_by_length "''svc.foo()''" "''fun baz()''"
        "''svc.foo() repo.bar()''" "''repo''" "''bar''"] more
    by blast
  then show ?thesis
    unfolding before calls defs by (simp add: helper_methods_def)
qed

text \<open>
  The second call site \<^verbatim>\<open>svc.foo()\<close> is a call site of a name that the
  implementation does not define, and the number of errors stays 1.
\<close>

theorem repeated_call_site_counterexample:
  "finditer match_call ''svc.foo() svc.foo()''
     = finditer match_call ''svc.foo()'' @ [(''svc'', ''foo'')]
   \<and> ''foo'' \<notin> set (extract_method_defs ''fun baz()'')
   \<and> length (errors (snd (validate_method_match hash_by_length
        (new_matcher ''svc.foo()'' ''fun baz()'')))) = 1
   \<and> length (errors (snd (validate_method_match hash_by_length
        (new_matcher ''svc.foo() svc.foo()'' ''fun baz()'')))) = 1
   \<and> map_of (snd (fst (run_all_checks hash_by_length
        (new_matcher ''svc.foo()'' ''fun baz()'')))) ''error_count'' = Some (PyInt 1)
   \<and> map_of (snd (fst (run_all_checks hash_by_length
        (new_matcher ''svc.foo() svc.foo()'' ''fun baz()'')))) ''error_count'' = Some (PyInt 1)"
  by code_simp

subsection \<open>The untested-exception rule\<close>

text \<open>
  C8. A \<^verbatim>\<open>throws\<close> clause whose names are separated by a comma and a line feed:
  the pattern of the clause takes any white space around the comma, while the
  clean-up of the captured text removes the blanks only. The second name is kept
  with the line feed in front of it, is found in no assertion, and is listed as
  untested although the tests assert both declared types.
\<close>

theorem throws_line_feed_warning:
  "finditer match_throws (''fun f() throws A,'' @ [CHR 0x0A] @ ''B'') = [''A,'' @ [CHR 0x0A] @ ''B'']
   \<and> thrown_exceptions (''fun f() throws A,'' @ [CHR 0x0A] @ ''B'') = [''A'', [CHR 0x0A] @ ''B'']
   \<and> tested_exceptions
        ''assertThatThrownBy { f() }.isInstanceOf(A::class.java) assertThatThrownBy { f() }.isInstanceOf(B::class.java)''
       = [''A'', ''B'']
   \<and> warnings (snd (validate_exception_handling hash_by_length
        (new_matcher
           ''assertThatThrownBy { f() }.isInstanceOf(A::class.java) assertThatThrownBy { f() }.isInstanceOf(B::class.java)''
           (''fun f() throws A,'' @ [CHR 0x0A] @ ''B''))))
       = [''Exceptions declared but not tested: {'' @ [CHR 0x27, CHR 0x5C] @ ''nB'' @ [CHR 0x27] @ ''}'']"
  by code_simp

subsection \<open>The untested-method rule\<close>

text \<open>
  C9. The untested-method rule appends no error and at most one warning. It
  takes the defined names that do not start with an underscore, are not called
  on any receiver in the tests and are not one of \<^verbatim>\<open>equals\<close>, \<^verbatim>\<open>hashCode\<close>,
  \<^verbatim>\<open>toString\<close>, \<^verbatim>\<open>getClass\<close>; when there is such a name, the one warning
  lists exactly these names, each once, as a printed set.
\<close>

theorem untested_method_rule:
  "\<exists>names. distinct names
     \<and> set names = set [name \<leftarrow> finditer match_def (impl_code m).
                          \<not> starts_with_underscore name
                          \<and> name \<notin> set (map snd (finditer match_call (test_code m)))
                          \<and> name \<notin> set structural_methods]
     \<and> warnings (snd (validate_test_coverage h m)) =
         warnings m @
           (if names = [] then []
            else [''Public methods without tests: {'' @ join '', '' (map py_repr names) @ ''}''])
     \<and> errors (snd (validate_test_coverage h m)) = errors m"
proof -
  let ?u = "uncovered_methods h (test_code m) (impl_code m)"
  let ?names = "set_iter h ?u"
  have "distinct ?names"
    by (simp add: distinct_set_iter uncovered_methods_def Let_def distinct_py_set)
  moreover have "set ?names = set [name \<leftarrow> finditer match_def (impl_code m).
                          \<not> starts_with_underscore name
                          \<and> name \<notin> set (map snd (finditer match_call (test_code m)))
                          \<and> name \<notin> set structural_methods]"
    by (simp only: set_set_iter set_uncovered_methods)
  moreover have "warnings (snd (validate_test_coverage h m)) =
         warnings m @
           (if ?names = [] then []
            else [''Public methods without tests: {'' @ join '', '' (map py_repr ?names) @ ''}''])"
    by (simp add: validate_test_coverage_appends coverage_warnings_def py_set_str_def
        set_iter_empty)
  moreover have "errors (snd (validate_test_coverage h m)) = errors m"
    by (simp add: validate_test_coverage_appends)
  ultimately show ?thesis by blast
qed

theorem untested_method_rule_witness:
  "warnings (snd (validate_test_coverage hash_by_length
      (new_matcher ''svc.run()'' ''fun equals(other: Any?) fun run()''))) = []
   \<and> warnings (snd (validate_test_coverage hash_by_length
      (new_matcher ''svc.run()'' ''fun computeTotal() fun run()'')))
      = [''Public methods without tests: {'' @ [CHR 0x27] @ ''computeTotal'' @ [CHR 0x27] @ ''}'']"
proof -
  let ?t = "''svc.run()''"
  let ?i1 = "''fun equals(other: Any?) fun run()''"
  let ?i2 = "''fun computeTotal() fun run()''"
  have u1: "[name \<leftarrow> finditer match_def ?i1.
               \<not> starts_with_underscore name
               \<and> name \<notin> set (map snd (finditer match_call ?t))
               \<and> name \<notin> set structural_methods] = []"
    by code_simp
  have u2: "[name \<leftarrow> finditer match_def ?i2.
               \<not> starts_with_underscore name
               \<and> name \<notin> set (map snd (finditer match_call ?t))
               \<and> name \<notin> set structural_methods] = [''computeTotal'']"
    by code_simp
  from untested_method_rule [of "new_matcher ?t ?i1" hash_by_length]
  obtain names1 where n1: "set names1 = set ([] :: string list)"
    "warnings (snd (validate_test_coverage hash_by_length (new_matcher ?t ?i1))) =
       (if names1 = [] then []
        else [''Public methods without tests: {'' @ join '', '' (map py_repr names1) @ ''}''])"
    unfolding new_matcher_def matcher.simps u1 by auto
  from untested_method_rule [of "new_matcher ?t ?i2" hash_by_length]
  obtain names2 where n2: "distinct names2" "set names2 = set [''computeTotal'']"
    "warnings (snd (validate_test_coverage hash_by_length (new_matcher ?t ?i2))) =
       (if names2 = [] then []
        else [''Public methods without tests: {'' @ join '', '' (map py_repr names2) @ ''}''])"
    unfolding new_matcher_def matcher.simps u2 by auto
  from n1(1) have "names1 = []" by simp
  moreover from n2(1,2) have "names2 = [''computeTotal'']"
    by (intro distinct_singleton_list) simp_all
  moreover have "py_repr ''computeTotal'' = [CHR 0x27] @ ''computeTotal'' @ [CHR 0x27]"
    by code_simp
  ultimately show ?thesis
    using n1(2) n2(3) by simp
qed

subsection \<open>Running the checks twice on one instance\<close>

text \<open>
  C10. \<^verbatim>\<open>run_all_checks\<close> called a second time on the same instance appends the
  same findings again: both lists are doubled, and the counts in the second
  report are twice those in the first.
\<close>

theorem run_all_checks_twice:
  "errors (snd (run_all_checks h (snd (run_all_checks h (new_matcher t i)))))
     = errors (snd (run_all_checks h (new_matcher t i)))
       @ errors (snd (run_all_checks h (new_matcher t i)))
   \<and> warnings (snd (run_all_checks h (snd (run_all_checks h (new_matcher t i)))))
     = warnings (snd (run_all_checks h (new_matcher t i)))
       @ warnings (snd (run_all_checks h (new_matcher t i)))
   \<and> map_of (snd (fst (run_all_checks h (snd (run_all_checks h (new_matcher t i))))))
        ''error_count''
     = Some (PyInt (2 * length (errors (snd (run_all_checks h (new_matcher t i))))))
   \<and> map_of (snd (fst (run_all_checks h (snd (run_all_checks h (new_matcher t i))))))
        ''warning_count''
     = Some (PyInt (2 * length (warnings (snd (run_all_checks h (new_matcher t i))))))
   \<and> map_of (snd (fst (run_all_checks h (new_matcher t i)))) ''error_count''
     = Some (PyInt (length (errors (snd (run_all_checks h (new_matcher t i))))))
   \<and> map_of (snd (fst (run_all_checks h (new_matcher t i)))) ''warning_count''
     = Some (PyInt (length (warnings (snd (run_all_checks h (new_matcher t i))))))"
proof -
  let ?m1 = "snd (run_all_checks h (new_matcher t i))"
  let ?m2 = "snd (run_all_checks h ?m1)"
  have m1: "?m1 = \<lparr>test_code = t, impl_code = i,
                   errors = new_errors h t i, warnings = new_warnings h t i\<rparr>"
    by (simp add: run_all_checks_state new_matcher_def)
  have e: "errors ?m2 = errors ?m1 @ errors ?m1"
    by (subst run_all_checks_state) (simp add: m1)
  have w: "warnings ?m2 = warnings ?m1 @ warnings ?m1"
    by (subst run_all_checks_state) (simp add: m1)
  have c2: "map_of (snd (fst (run_all_checks h ?m1))) ''error_count''
      = Some (PyInt (length (errors ?m2)))"
    "map_of (snd (fst (run_all_checks h ?m1))) ''warning_count''
      = Some (PyInt (length (warnings ?m2)))"
    by (simp_all add: run_all_checks_report)
  have c1: "map_of (snd (fst (run_all_checks h (new_matcher t i)))) ''error_count''
      = Some (PyInt (length (errors ?m1)))"
    "map_of (snd (fst (run_all_checks h (new_matcher t i)))) ''warning_count''
      = Some (PyInt (length (warnings ?m1)))"
    by (simp_all add: run_all_checks_report)
  have "length (errors ?m2) = 2 * length (errors ?m1)"
    "length (warnings ?m2) = 2 * length (warnings ?m1)"
    by (simp_all add: e w)
  with e w c1 c2 show ?thesis by simp
qed

theorem run_all_checks_twice_witness:
  "map_of (snd (fst (run_all_checks hash_by_length
      (new_matcher ''svc.foo()'' ''fun bar()'')))) ''error_count'' = Some (PyInt 1)
   \<and> map_of (snd (fst (run_all_checks hash_by_length
      (new_matcher ''svc.foo()'' ''fun bar()'')))) ''warning_count'' = Some (PyInt 1)
   \<and> map_of (snd (fst (run_all_checks hash_by_length (snd (run_all_checks hash_by_length
      (new_matcher ''svc.foo()'' ''fun bar()'')))))) ''error_count'' = Some (PyInt 2)
   \<and> map_of (snd (fst (run_all_checks hash_by_length (snd (run_all_checks hash_by_length
      (new_matcher ''svc.foo()'' ''fun bar()'')))))) ''warning_count'' = Some (PyInt 2)"
proof -
  have e: "length (errors (snd (run_all_checks hash_by_length
      (new_matcher ''svc.foo()'' ''fun bar()'')))) = 1"
    by code_simp
  have w: "length (warnings (snd (run_all_checks hash_by_length
      (new_matcher ''svc.foo()'' ''fun bar()'')))) = 1"
    by code_simp
  show ?thesis
    using run_all_checks_twice [of hash_by_length "''svc.foo()''" "''fun bar()''"]
    unfolding e w by simp
qed

end
